theory Spec2Isabelle
  imports Complex_Main "HOL-Library.Log_Nat"
begin

section \<open>JavaScript numbers\<close>

text \<open>
  The ticker script computes with JavaScript numbers: IEEE 754 binary64 values.  A number is
  \<open>NaN\<close>, one of the two infinities, or a finite double, held here by its exact rational
  value.  The two zeros are one value \<open>Fin 0\<close>: the script adds, divides by the literal 100,
  compares with \<open>>=\<close> and \<open><\<close> and formats with \<open>toFixed\<close>, and none of these tells
  \<open>-0\<close> from \<open>+0\<close>.

  Every arithmetic operation is the exact operation followed by rounding to the nearest
  double, ties to even (\<open>round_double\<close>).
\<close>

datatype jsnum = NaN | NInf | Fin rat | PInf

text \<open>\<open>expo x\<close> is the binary exponent of a positive rational: \<open>2^e \<le> x < 2^(e+1)\<close>.\<close>

definition expo :: "rat \<Rightarrow> int" where
  "expo x = (if 1 \<le> x then bitlen \<lfloor>x\<rfloor> - 1
             else (let b = bitlen \<lfloor>1 / x\<rfloor> in if x * 2 ^ nat b = 2 then 1 - b else - b))"

definition round_half_even :: "rat \<Rightarrow> int" where
  "round_half_even q = (let f = \<lfloor>q\<rfloor>; d = q - of_int f
     in if d < 1 / 2 then f else if 1 / 2 < d then f + 1 else if even f then f else f + 1)"

text \<open>
  A positive rational is rounded on the grid of its binade: 53 significant bits, the
  spacing never below \<open>2^-1074\<close> (subnormals), and a result of \<open>2^1024\<close> or more is
  infinite.
\<close>

definition round_pos :: "rat \<Rightarrow> jsnum" where
  "round_pos x = (let ulp = 2 powi (max (expo x) (- 1022) - 52);
                      r = of_int (round_half_even (x / ulp)) * ulp
                  in if 2 ^ 1024 \<le> r then PInf else Fin r)"

definition round_double :: "rat \<Rightarrow> jsnum" where
  "round_double x = (if x = 0 then Fin 0
     else if 0 < x then round_pos x
     else (case round_pos (- x) of Fin r \<Rightarrow> Fin (- r) | _ \<Rightarrow> NInf))"

definition is_double :: "jsnum \<Rightarrow> bool" where
  "is_double v = (case v of Fin r \<Rightarrow> round_double r = Fin r | _ \<Rightarrow> True)"

text \<open>\<open>a + b\<close>\<close>

fun js_add :: "jsnum \<Rightarrow> jsnum \<Rightarrow> jsnum" where
  "js_add NaN _ = NaN"
| "js_add _ NaN = NaN"
| "js_add PInf NInf = NaN"
| "js_add NInf PInf = NaN"
| "js_add PInf _ = PInf"
| "js_add _ PInf = PInf"
| "js_add NInf _ = NInf"
| "js_add _ NInf = NInf"
| "js_add (Fin a) (Fin b) = round_double (a + b)"

text \<open>\<open>a / d\<close> for a positive finite constant \<open>d\<close> (the script divides by the literal 100 only).\<close>

fun js_div :: "jsnum \<Rightarrow> rat \<Rightarrow> jsnum" where
  "js_div NaN d = NaN"
| "js_div PInf d = PInf"
| "js_div NInf d = NInf"
| "js_div (Fin a) d = round_double (a / d)"

text \<open>\<open>a >= b\<close> and \<open>a < b\<close>: false as soon as one side is \<open>NaN\<close>.\<close>

fun js_ge :: "jsnum \<Rightarrow> jsnum \<Rightarrow> bool" where
  "js_ge NaN _ = False"
| "js_ge _ NaN = False"
| "js_ge PInf _ = True"
| "js_ge _ NInf = True"
| "js_ge NInf _ = False"
| "js_ge _ PInf = False"
| "js_ge (Fin a) (Fin b) = (b \<le> a)"

fun js_lt :: "jsnum \<Rightarrow> jsnum \<Rightarrow> bool" where
  "js_lt NaN _ = False"
| "js_lt _ NaN = False"
| "js_lt PInf _ = False"
| "js_lt _ NInf = False"
| "js_lt NInf _ = True"
| "js_lt _ PInf = True"
| "js_lt (Fin a) (Fin b) = (a < b)"

section \<open>Number.prototype.toFixed\<close>

datatype error = RangeError

fun dec_digits :: "nat \<Rightarrow> string" where
  "dec_digits n = (if n < 10 then [char_of (48 + n)]
                   else dec_digits (n div 10) @ [char_of (48 + n mod 10)])"

declare dec_digits.simps [simp del]

text \<open>
  \<open>ToIntegerOrInfinity\<close> of the digits argument followed by the range check of
  \<open>toFixed\<close>: \<open>NaN\<close> counts as 0, a fraction is truncated towards zero, and a count that
  is infinite, negative or above 100 raises \<open>RangeError\<close>.
\<close>

definition fraction_digits :: "jsnum \<Rightarrow> error + nat" where
  "fraction_digits d = (case d of
       NaN \<Rightarrow> Inr 0
     | PInf \<Rightarrow> Inl RangeError
     | NInf \<Rightarrow> Inl RangeError
     | Fin r \<Rightarrow> (let f = (if 0 \<le> r then \<lfloor>r\<rfloor> else - \<lfloor>- r\<rfloor>)
                in if f < 0 \<or> 100 < f then Inl RangeError else Inr (nat f)))"

text \<open>
  \<open>Number::toString\<close> of a finite \<open>a \<ge> 10^21\<close> (exponent notation).  The digits are
  those of the least \<open>k\<close> and an \<open>s\<close> with \<open>k\<close> digits such that \<open>s * 10^(n-k)\<close> rounds to
  \<open>a\<close>; among several such \<open>s\<close> the one nearest to \<open>a\<close>, the even one of two that
  are equally near.
\<close>

definition sci_candidates :: "rat \<Rightarrow> nat \<Rightarrow> (nat \<times> nat) list" where
  "sci_candidates a k =
     (let nd = length (dec_digits (nat \<lfloor>a\<rfloor>));
          s0 = nat \<lfloor>a / 10 ^ (nd - k)\<rfloor>
      in filter (\<lambda>(s, n). 10 ^ (k - 1) \<le> s \<and> s < 10 ^ k
                        \<and> round_double (of_nat s * 10 ^ (n - k)) = Fin a)
           [(s0, nd), (s0 + 1, nd), (10 ^ (k - 1), nd + 1)])"

fun nearest :: "rat \<Rightarrow> nat \<Rightarrow> (nat \<times> nat) list \<Rightarrow> (nat \<times> nat) option" where
  "nearest a k [] = None"
| "nearest a k (c # cs) =
     (case nearest a k cs of
        None \<Rightarrow> Some c
      | Some c' \<Rightarrow>
          (let d = \<bar>of_nat (fst c) * 10 ^ (snd c - k) - a\<bar>;
               d' = \<bar>of_nat (fst c') * 10 ^ (snd c' - k) - a\<bar>
           in if d < d' \<or> (d = d' \<and> even (fst c)) then Some c else Some c'))"

fun shortest :: "rat \<Rightarrow> nat \<Rightarrow> nat \<Rightarrow> (nat \<times> nat) option" where
  "shortest a k 0 = None"
| "shortest a k (Suc fuel) =
     (case nearest a k (sci_candidates a k) of
        Some c \<Rightarrow> Some c
      | None \<Rightarrow> shortest a (Suc k) fuel)"

definition to_string_large :: "rat \<Rightarrow> string" where
  "to_string_large a =
     (case shortest a 1 17 of
        None \<Rightarrow> dec_digits (nat \<lfloor>a\<rfloor>)
      | Some (s, n) \<Rightarrow>
          (let d = dec_digits s
           in (if length d = 1 then d else take 1 d @ ''.'' @ drop 1 d)
              @ ''e+'' @ dec_digits (n - 1)))"

text \<open>
  The fixed-point branch: the integer \<open>n\<close> nearest to \<open>x * 10^f\<close> (the larger one on a
  tie), its decimal digits padded with zeros to at least \<open>f + 1\<close>, and a point before the
  last \<open>f\<close> of them.
\<close>

definition fixed_digits :: "rat \<Rightarrow> nat \<Rightarrow> string" where
  "fixed_digits x f =
     (let n = nat \<lfloor>x * 10 ^ f + 1 / 2\<rfloor>;
          m = dec_digits n
      in if f = 0 then m
         else (let m' = (if length m \<le> f then replicate (f + 1 - length m) CHR ''0'' @ m else m);
                   k = length m'
               in take (k - f) m' @ ''.'' @ drop (k - f) m'))"

definition toFixed :: "jsnum \<Rightarrow> jsnum \<Rightarrow> error + string" where
  "toFixed x fractionDigits =
     (case fraction_digits fractionDigits of
        Inl e \<Rightarrow> Inl e
      | Inr f \<Rightarrow>
          (case x of
             NaN \<Rightarrow> Inr ''NaN''
           | PInf \<Rightarrow> Inr ''Infinity''
           | NInf \<Rightarrow> Inr ''-Infinity''
           | Fin r \<Rightarrow>
               (let s = (if r < 0 then ''-'' else '''');
                    a = \<bar>r\<bar>
                in if 10 ^ 21 \<le> a then Inr (s @ to_string_large a)
                   else Inr (s @ fixed_digits a f))))"

section \<open>The ticker: elements, timers, the page\<close>

text \<open>
  A counter element as the script reads it: \<open>data_target\<close> is
  \<open>parseFloat(el.dataset.target)\<close>, \<open>data_decimals\<close> is
  \<open>parseInt(el.dataset.decimals || 0)\<close> (\<open>NaN\<close> or an integer), both as the host's parser
  returns them, and \<open>textContent\<close> is the text the page shows.
\<close>

record element =
  data_target :: jsnum
  data_decimals :: jsnum
  textContent :: string

text \<open>
  One \<open>forEach\<close> iteration: the variables its closure captures (\<open>el\<close> as the index of the
  element in \<open>counters\<close>) together with the host's entry for the timer that
  \<open>setInterval\<close> returned as \<open>interval\<close>: its delay, and whether it still fires
  (\<open>clearInterval(interval)\<close> ends that).
\<close>

record timer =
  el :: nat
  target :: jsnum
  decimals :: jsnum
  count :: jsnum
  step :: jsnum
  delay :: nat
  active :: bool

text \<open>Lines 15 to 20 and 27: what one \<open>forEach\<close> iteration sets up.\<close>

definition start_timer :: "nat \<Rightarrow> element \<Rightarrow> timer" where
  "start_timer i e =
     \<lparr>el = i,
      target = data_target e,
      decimals = data_decimals e,
      count = Fin 0,
      step = js_div (data_target e) 100,
      delay = 20,
      active = True\<rparr>"

text \<open>
  Lines 21 to 26, the body of the interval callback, statement by statement.  The result is
  the timer after the run and the outcome of the last statement: the string assigned to
  \<open>el.textContent\<close>, or the error \<open>toFixed\<close> raised (nothing is assigned then, and the
  statements before it have taken effect).
\<close>

definition add_step :: "timer \<Rightarrow> timer" where
  "add_step t = t\<lparr>count := js_add (count t) (step t)\<rparr>"

definition clamp :: "timer \<Rightarrow> timer" where
  "clamp t = (if js_ge (count t) (target t)
              then t\<lparr>count := target t, active := False\<rparr>
              else t)"

definition render :: "timer \<Rightarrow> error + string" where
  "render t = toFixed (count t) (decimals t)"

definition callback :: "timer \<Rightarrow> timer \<times> (error + string)" where
  "callback t = (let t1 = add_step t; t2 = clamp t1 in (t2, render t2))"

text \<open>The host runs the callback of a timer only while the timer has not been cleared.\<close>

fun ticks :: "nat \<Rightarrow> timer \<Rightarrow> timer" where
  "ticks 0 t = t"
| "ticks (Suc n) t = (if active t then ticks n (fst (callback t)) else t)"

fun renders :: "nat \<Rightarrow> timer \<Rightarrow> (error + string) list" where
  "renders 0 t = []"
| "renders (Suc n) t =
     (if active t then snd (callback t) # renders n (fst (callback t)) else [])"

text \<open>The texts the element was given, oldest first.\<close>

fun written :: "(error + string) list \<Rightarrow> string list" where
  "written [] = []"
| "written (Inr s # rs) = s # written rs"
| "written (Inl e # rs) = written rs"

text \<open>
  The page: the closure variables \<open>started\<close> and \<open>counters\<close> of the
  \<open>DOMContentLoaded\<close> handler, the timers created so far, and the number of scroll
  listeners registered on the window.
\<close>

record page =
  started :: bool
  counters :: "element list"
  timers :: "timer list"
  scroll_listeners :: nat

text \<open>
  What one visibility check reads from the host: \<open>ticker.getBoundingClientRect().top\<close>
  and \<open>window.innerHeight\<close>.
\<close>

record geometry =
  rect_top :: jsnum
  innerHeight :: jsnum

definition start_all :: "element list \<Rightarrow> timer list" where
  "start_all els = map (\<lambda>(i, e). start_timer i e) (zip [0..<length els] els)"

definition animateTicker :: "geometry \<Rightarrow> page \<Rightarrow> page" where
  "animateTicker g p =
     (if started p then p
      else (let pos = rect_top g
            in if js_lt pos (innerHeight g)
               then p\<lparr>started := True, timers := timers p @ start_all (counters p)\<rparr>
               else p))"

text \<open>
  The handler of \<open>DOMContentLoaded\<close>; the argument is what \<open>getElementById('ticker')\<close>
  found: nothing, or the ticker with its \<open>.ticker-number\<close> elements.
\<close>

definition no_page :: page where
  "no_page = \<lparr>started = False, counters = [], timers = [], scroll_listeners = 0\<rparr>"

definition page_init :: "element list \<Rightarrow> page" where
  "page_init els = \<lparr>started = False, counters = els, timers = [], scroll_listeners = 0\<rparr>"

definition DOMContentLoaded :: "element list option \<Rightarrow> geometry \<Rightarrow> error list \<times> page" where
  "DOMContentLoaded ticker g =
     (case ticker of
        None \<Rightarrow> ([], no_page)
      | Some els \<Rightarrow>
          (let p = page_init els;
               p = p\<lparr>scroll_listeners := scroll_listeners p + 1\<rparr>
           in ([], animateTicker g p)))"

text \<open>
  What the event loop does afterwards: a scroll event calls the registered listener, a
  timer that is still active runs its callback.  An error raised in a callback is reported
  and the page goes on.
\<close>

datatype event = Scroll geometry | Fire nat

definition set_text :: "nat \<Rightarrow> string \<Rightarrow> element list \<Rightarrow> element list" where
  "set_text i s els = (if i < length els then els[i := (els ! i)\<lparr>textContent := s\<rparr>] else els)"

definition fire :: "nat \<Rightarrow> page \<Rightarrow> error list \<times> page" where
  "fire i p =
     (if i < length (timers p) \<and> active (timers p ! i)
      then (case callback (timers p ! i) of
              (t, Inr s) \<Rightarrow>
                ([], p\<lparr>timers := (timers p)[i := t], counters := set_text (el t) s (counters p)\<rparr>)
            | (t, Inl e) \<Rightarrow> ([e], p\<lparr>timers := (timers p)[i := t]\<rparr>))
      else ([], p))"

fun dispatch :: "event \<Rightarrow> page \<Rightarrow> error list \<times> page" where
  "dispatch (Scroll g) p = ([], if 0 < scroll_listeners p then animateTicker g p else p)"
| "dispatch (Fire i) p = fire i p"

fun run :: "event list \<Rightarrow> error list \<times> page \<Rightarrow> error list \<times> page" where
  "run [] r = r"
| "run (ev # evs) (errs, p) = (case dispatch ev p of (es, p') \<Rightarrow> run evs (errs @ es, p'))"

text \<open>
  The number of visibility checks in a sequence of events that start the animation set,
  that is, that change the page at all.
\<close>

fun starts :: "event list \<Rightarrow> page \<Rightarrow> nat" where
  "starts [] p = 0"
| "starts (Scroll g # evs) p =
     (if snd (dispatch (Scroll g) p) = p then 0 else 1) + starts evs (snd (dispatch (Scroll g) p))"
| "starts (Fire i # evs) p = starts evs (snd (dispatch (Fire i) p))"

section \<open>Definitions used in the statements\<close>

text \<open>
  The unit roundoff of binary64 and half the spacing of the subnormal doubles: rounding a
  positive \<open>x\<close> that does not overflow changes it by at most \<open>x * eps + eta\<close>.
\<close>

definition eps :: rat where "eps = 1 / 2 ^ 53"

definition eta :: rat where "eta = 1 / 2 ^ 1075"

text \<open>
  The state of a counter with a non-negative target: target, step and running value are
  non-negative numbers (none of them \<open>NaN\<close>) and the running value is at most the target.
\<close>

definition bounded :: "timer \<Rightarrow> bool" where
  "bounded t = (js_ge (target t) (Fin 0) \<and> js_ge (step t) (Fin 0)
                \<and> js_ge (count t) (Fin 0) \<and> js_ge (target t) (count t))"

text \<open>
  Every counter has at most one timer: the timers are none before the start and one per
  counter after it.
\<close>

definition timers_inv :: "page \<Rightarrow> bool" where
  "timers_inv p = (length (timers p) = (if started p then length (counters p) else 0))"

text \<open>
  The number of characters after the decimal point of a text, 0 when it has no point.
\<close>

definition frac_len :: "string \<Rightarrow> nat" where
  "frac_len s = (if CHR ''.'' \<in> set s then length (takeWhile (\<lambda>c. c \<noteq> CHR ''.'') (rev s)) else 0)"

text \<open>
  The text an element shows after a sequence of renders: the last text written, or the old
  text when none was written.
\<close>

definition shown :: "string \<Rightarrow> (error + string) list \<Rightarrow> string" where
  "shown old rs = (if written rs = [] then old else last (written rs))"

text \<open>
  One tick as section 4.1 of the specification words it, to be compared with \<open>callback\<close>:
  add the step to the running value; if the running value has reached or exceeded the
  target, set it to the target and cancel this counter's own timer; render the running
  value with \<open>decimals\<close> fractional digits.
\<close>

definition spec_tick :: "timer \<Rightarrow> timer \<times> (error + string)" where
  "spec_tick t =
     (let v = js_add (count t) (step t);
          reached = js_ge v (target t);
          v' = (if reached then target t else v)
      in (t\<lparr>count := v', active := (if reached then False else active t)\<rparr>,
          toFixed v' (decimals t)))"

text \<open>
  Sample inputs: the counter of the specification's scenario (\<open>target="250"\<close>,
  \<open>decimals="1"\<close>), a negative target, a target that does not parse, a digit count
  above 100, the smallest positive double as target (\<open>target="5e-324"\<close>), and a ticker
  inside and below the viewport.
\<close>

definition counter_250 :: element where
  "counter_250 = \<lparr>data_target = Fin 250, data_decimals = Fin 1, textContent = ''0''\<rparr>"

definition counter_neg :: element where
  "counter_neg = \<lparr>data_target = Fin (- 100), data_decimals = Fin 2, textContent = ''0''\<rparr>"

definition counter_nan :: element where
  "counter_nan = \<lparr>data_target = NaN, data_decimals = Fin 0, textContent = ''0''\<rparr>"

definition counter_nan_101 :: element where
  "counter_nan_101 = \<lparr>data_target = NaN, data_decimals = Fin 101, textContent = ''0''\<rparr>"

definition counter_250_101 :: element where
  "counter_250_101 = \<lparr>data_target = Fin 250, data_decimals = Fin 101, textContent = ''0''\<rparr>"

definition counter_tiny :: element where
  "counter_tiny = \<lparr>data_target = Fin (1 / 2 ^ 1074), data_decimals = Fin 0, textContent = ''0''\<rparr>"

definition visible :: geometry where
  "visible = \<lparr>rect_top = Fin 300, innerHeight = Fin 600\<rparr>"

definition below_fold :: geometry where
  "below_fold = \<lparr>rect_top = Fin 900, innerHeight = Fin 600\<rparr>"

section \<open>Rounding to a double\<close>

lemma round_half_even_cases:
  "round_half_even q = \<lfloor>q\<rfloor> \<and> q - of_int \<lfloor>q\<rfloor> \<le> 1 / 2
   \<or> round_half_even q = \<lfloor>q\<rfloor> + 1 \<and> 1 / 2 \<le> q - of_int \<lfloor>q\<rfloor>"
  by (auto simp: round_half_even_def Let_def)

lemma round_half_even_err: "\<bar>of_int (round_half_even q) - q\<bar> \<le> 1 / 2"
proof -
  have "of_int \<lfloor>q\<rfloor> \<le> q" "q < of_int \<lfloor>q\<rfloor> + 1" by linarith+
  with round_half_even_cases [of q] show ?thesis by auto
qed

lemma round_half_even_nonneg: "0 \<le> q \<Longrightarrow> 0 \<le> round_half_even q"
proof -
  assume "0 \<le> q"
  then have "0 \<le> \<lfloor>q\<rfloor>" by simp
  with round_half_even_cases [of q] show ?thesis by auto
qed

lemma round_half_even_le_twice: "0 \<le> q \<Longrightarrow> of_int (round_half_even q) \<le> 2 * q"
proof -
  assume q: "0 \<le> q"
  then have f: "(0::rat) \<le> of_int \<lfloor>q\<rfloor>" by simp
  have g: "of_int \<lfloor>q\<rfloor> \<le> q" by linarith
  from round_half_even_cases [of q] show ?thesis
  proof
    assume "round_half_even q = \<lfloor>q\<rfloor> \<and> q - of_int \<lfloor>q\<rfloor> \<le> 1 / 2"
    then have "of_int (round_half_even q) = (of_int \<lfloor>q\<rfloor> :: rat)" by simp
    with g q show ?thesis by linarith
  next
    assume a: "round_half_even q = \<lfloor>q\<rfloor> + 1 \<and> 1 / 2 \<le> q - of_int \<lfloor>q\<rfloor>"
    then have "of_int (round_half_even q) = (of_int \<lfloor>q\<rfloor> :: rat) + 1" by simp
    with a f show ?thesis by linarith
  qed
qed

lemma round_half_even_int [simp]: "round_half_even (of_int n) = n"
  by (simp add: round_half_even_def)

lemma powi_nat: "0 \<le> k \<Longrightarrow> (2::rat) powi k = 2 ^ nat k"
  by (simp add: power_int_def)

lemma powi_Suc: "(2::rat) powi (k + 1) = 2 * 2 powi k"
  by (simp add: power_int_add)

lemma expo_bounds:
  assumes "0 < x"
  shows "2 powi expo x \<le> x \<and> x < 2 powi (expo x + 1)"
proof (cases "1 \<le> x")
  case True
  let ?m = "\<lfloor>x\<rfloor>"
  from True have m: "0 < ?m" by simp
  from bitlen_bounds [OF m] have lo: "2 ^ nat (bitlen ?m - 1) \<le> ?m" and hi: "?m < 2 ^ nat (bitlen ?m)"
    by simp_all
  from m have b1: "1 \<le> bitlen ?m" using bitlen_eq_zero_iff [of ?m] bitlen_nonneg [of ?m] by linarith
  have "(of_int (2 ^ nat (bitlen ?m - 1)) :: rat) \<le> of_int ?m" using lo by (simp only: of_int_le_iff)
  then have l: "(2::rat) ^ nat (bitlen ?m - 1) \<le> x" by (simp add: le_floor_iff)
  from hi have "?m + 1 \<le> 2 ^ nat (bitlen ?m)" by simp
  then have "(of_int (?m + 1) :: rat) \<le> of_int (2 ^ nat (bitlen ?m))" by (simp only: of_int_le_iff)
  moreover have "x < of_int (?m + 1)" by simp linarith
  ultimately have h: "x < (2::rat) ^ nat (bitlen ?m)" by simp
  from True b1 l h show ?thesis by (simp add: expo_def powi_nat)
next
  case False
  let ?w = "1 / x"
  let ?m = "\<lfloor>?w\<rfloor>"
  let ?b = "bitlen ?m"
  from False assms have w1: "1 < ?w" by simp
  then have m: "0 < ?m" by simp
  from bitlen_bounds [OF m] have lo: "2 ^ nat (?b - 1) \<le> ?m" and hi: "?m < 2 ^ nat ?b"
    by simp_all
  from m have b1: "1 \<le> ?b" using bitlen_eq_zero_iff [of ?m] bitlen_nonneg [of ?m] by linarith
  have "(of_int (2 ^ nat (?b - 1)) :: rat) \<le> of_int ?m" using lo by (simp only: of_int_le_iff)
  then have l: "(2::rat) ^ nat (?b - 1) \<le> ?w" by (simp add: le_floor_iff)
  from hi have "?m + 1 \<le> 2 ^ nat ?b" by simp
  then have "(of_int (?m + 1) :: rat) \<le> of_int (2 ^ nat ?b)" by (simp only: of_int_le_iff)
  moreover have "?w < of_int (?m + 1)" by simp linarith
  ultimately have h: "?w < (2::rat) ^ nat ?b" by simp
  from l assms have l': "x * 2 ^ nat (?b - 1) \<le> 1" by (simp add: field_simps)
  from h assms have h': "1 < x * 2 ^ nat ?b" by (simp add: field_simps)
  from b1 have nb: "nat ?b = Suc (nat (?b - 1))" by simp
  have pm: "(2::rat) powi (- ?b) = 1 / 2 ^ nat ?b"
    using b1 by (simp add: power_int_def field_simps)
  have pm1: "(2::rat) powi (1 - ?b) = 1 / 2 ^ nat (?b - 1)"
    using b1 by (simp add: power_int_def field_simps nat_diff_distrib)
  show ?thesis
  proof (cases "x * 2 ^ nat ?b = 2")
    case True
    then have e: "expo x = 1 - ?b" using False by (simp add: expo_def Let_def)
    from True nb have "x * 2 ^ nat (?b - 1) = 1" by simp
    then have "x = 1 / 2 ^ nat (?b - 1)" by (simp add: field_simps)
    with pm1 have xe: "x = 2 powi (1 - ?b)" by simp
    have "2 powi (1 - ?b + 1) = 2 * (2::rat) powi (1 - ?b)" by (rule powi_Suc)
    with xe assms have "x < 2 powi (1 - ?b + 1)" by simp
    with e xe show ?thesis by simp
  next
    case ne: False
    then have e: "expo x = - ?b" using False by (simp add: expo_def Let_def)
    from l' nb have "x * 2 ^ nat ?b \<le> 2" by simp
    with ne have "x * 2 ^ nat ?b < 2" by simp
    with nb have "x * 2 ^ nat (?b - 1) < 1" by simp
    then have u: "x < 1 / 2 ^ nat (?b - 1)" by (simp add: field_simps)
    from h' have lw: "1 / 2 ^ nat ?b < x" by (simp add: field_simps)
    have "- ?b + 1 = 1 - ?b" by simp
    with e pm pm1 u lw show ?thesis by simp
  qed
qed

lemma powi_m52: "(2::rat) powi (e - 52) = 2 powi e / 2 ^ 52"
proof -
  have "(2::rat) powi (e + (- 52)) = 2 powi e * 2 powi (- 52)" by (rule power_int_add) simp
  moreover have "(2::rat) powi (- 52) = 1 / 2 ^ 52" by (simp add: power_int_def power_one_over)
  ultimately show ?thesis by simp
qed

lemma powi_pos [simp]: "0 < (2::rat) powi e"
  by (simp add: zero_less_power_int)

lemma ulp_half_le:
  assumes "0 < x"
  shows "2 powi (max (expo x) (- 1022) - 52) / 2 \<le> x / 2 ^ 53 + 1 / 2 ^ 1075"
proof (cases "- 1022 \<le> expo x")
  case True
  then have "max (expo x) (- 1022) = expo x" by simp
  moreover have "2 powi expo x \<le> x" using expo_bounds [OF assms] by simp
  then have "2 powi expo x / 2 ^ 52 / 2 \<le> x / 2 ^ 52 / 2" by (simp add: divide_right_mono)
  ultimately show ?thesis by (simp add: powi_m52)
next
  case False
  then have "max (expo x) (- 1022) = - 1022" by simp
  moreover have "(2::rat) powi (- 1022 - 52) = 1 / 2 ^ 1074" by (simp add: power_int_def power_one_over)
  ultimately show ?thesis using assms by simp
qed

lemma round_pos_bounds:
  assumes "0 < x"
  shows "round_pos x = PInf
         \<or> (\<exists>r. round_pos x = Fin r \<and> 0 \<le> r \<and> r \<le> 2 * x \<and> r < 2 ^ 1024
                \<and> x - x / 2 ^ 53 - 1 / 2 ^ 1075 \<le> r)"
proof -
  define ulp :: rat where "ulp = 2 powi (max (expo x) (- 1022) - 52)"
  define q where "q = x / ulp"
  define n where "n = round_half_even q"
  define r :: rat where "r = of_int n * ulp"
  have ulp: "0 < ulp" by (simp add: ulp_def)
  with assms have q: "0 \<le> q" by (simp add: q_def)
  have x: "x = q * ulp" using ulp by (simp add: q_def)
  have "\<bar>of_int n - q\<bar> \<le> 1 / 2" unfolding n_def by (rule round_half_even_err)
  then have "\<bar>of_int n - q\<bar> * ulp \<le> 1 / 2 * ulp" using ulp by (simp add: mult_right_mono)
  moreover have "r - x = (of_int n - q) * ulp" by (simp add: r_def x algebra_simps)
  then have "\<bar>of_int n - q\<bar> * ulp = \<bar>r - x\<bar>"
    using ulp by (simp add: abs_mult)
  ultimately have err: "\<bar>r - x\<bar> \<le> ulp / 2" by simp
  have "ulp / 2 \<le> x / 2 ^ 53 + 1 / 2 ^ 1075" unfolding ulp_def by (rule ulp_half_le [OF assms])
  with err have lo: "x - x / 2 ^ 53 - 1 / 2 ^ 1075 \<le> r" by linarith
  have "0 \<le> n" unfolding n_def using q by (rule round_half_even_nonneg)
  then have r0: "0 \<le> r" using ulp by (simp add: r_def)
  have "of_int n \<le> 2 * q" unfolding n_def using q by (rule round_half_even_le_twice)
  then have "of_int n * ulp \<le> 2 * q * ulp" using ulp by (simp add: mult_right_mono)
  then have r2: "r \<le> 2 * x" by (simp add: r_def x algebra_simps)
  have rp: "round_pos x = (if 2 ^ 1024 \<le> r then PInf else Fin r)"
    by (simp add: round_pos_def Let_def r_def n_def q_def ulp_def)
  show ?thesis
  proof (cases "(2::rat) ^ 1024 \<le> r")
    case True
    with rp show ?thesis by simp
  next
    case False
    with rp lo r0 r2 show ?thesis by simp
  qed
qed

lemma round_pos_finite:
  assumes "0 < x" "x < 2 ^ 1023"
  shows "\<exists>r. round_pos x = Fin r \<and> 0 \<le> r \<and> r \<le> 2 * x"
proof -
  define ulp :: rat where "ulp = 2 powi (max (expo x) (- 1022) - 52)"
  define r :: rat where "r = of_int (round_half_even (x / ulp)) * ulp"
  have ulp: "0 < ulp" by (simp add: ulp_def)
  with assms have q: "0 \<le> x / ulp" by simp
  have "of_int (round_half_even (x / ulp)) \<le> 2 * (x / ulp)"
    using q by (rule round_half_even_le_twice)
  then have "of_int (round_half_even (x / ulp)) * ulp \<le> 2 * (x / ulp) * ulp"
    using ulp by (simp only: mult_right_mono less_imp_le)
  moreover have "2 * (x / ulp) * ulp = 2 * x" using ulp by simp
  ultimately have r2: "r \<le> 2 * x" by (simp only: r_def)
  have "0 \<le> round_half_even (x / ulp)" using q by (rule round_half_even_nonneg)
  then have r0: "0 \<le> r" using ulp by (simp add: r_def)
  from r2 assms(2) have "r < 2 ^ 1024" by simp
  then have "round_pos x = Fin r" by (simp add: round_pos_def Let_def r_def ulp_def)
  with r0 r2 show ?thesis by simp
qed

lemma round_double_nonneg:
  assumes "0 \<le> x"
  shows "round_double x = PInf \<or> (\<exists>r. round_double x = Fin r \<and> 0 \<le> r)"
proof (cases "x = 0")
  case True
  then show ?thesis by (simp add: round_double_def)
next
  case False
  with assms have "0 < x" by simp
  with round_pos_bounds [of x] show ?thesis by (auto simp: round_double_def)
qed

lemma round_double_nonpos:
  assumes "x \<le> 0" "- x < 2 ^ 1023"
  shows "\<exists>r. round_double x = Fin r \<and> 2 * x \<le> r \<and> r \<le> 0"
proof (cases "x = 0")
  case True
  then show ?thesis by (simp add: round_double_def)
next
  case False
  with assms have p: "0 < - x" by simp
  from round_pos_finite [OF p assms(2)] obtain r
    where "round_pos (- x) = Fin r" "0 \<le> r" "r \<le> 2 * (- x)" by blast
  with False assms(1) show ?thesis by (simp add: round_double_def)
qed

lemma round_double_pos:
  assumes "0 < x"
  shows "round_double x = PInf
         \<or> (\<exists>r. round_double x = Fin r \<and> 0 \<le> r \<and> r \<le> 2 * x
                \<and> x - x / 2 ^ 53 - 1 / 2 ^ 1075 \<le> r)"
  using round_pos_bounds [OF assms] assms by (auto simp: round_double_def)

lemma is_double_range:
  assumes "is_double (Fin r)"
  shows "\<bar>r\<bar> < 2 ^ 1024"
proof -
  from assms have rd: "round_double r = Fin r" by (simp add: is_double_def)
  consider "r = 0" | "0 < r" | "r < 0" by linarith
  then show ?thesis
  proof cases
    case 1
    then show ?thesis by simp
  next
    case 2
    with rd have "round_pos r = Fin r" by (simp add: round_double_def)
    with round_pos_bounds [OF 2] 2 show ?thesis by auto
  next
    case 3
    then have p: "0 < - r" by simp
    from 3 rd have "(case round_pos (- r) of Fin s \<Rightarrow> Fin (- s) | _ \<Rightarrow> NInf) = Fin r"
      by (simp add: round_double_def)
    then have "round_pos (- r) = Fin (- r)" by (cases "round_pos (- r)") simp_all
    with round_pos_bounds [OF p] 3 show ?thesis by auto
  qed
qed

lemma eps_facts: "0 < eps" "1000000 * eps \<le> 1"
  by (simp_all add: eps_def)

lemma eta_facts: "0 < eta" "32768 * eta = 1 / 2 ^ 1060"
  by (simp_all add: eta_def)

lemma round_double_pos':
  assumes "0 < x"
  shows "round_double x = PInf
         \<or> (\<exists>r. round_double x = Fin r \<and> 0 \<le> r \<and> r \<le> 2 * x \<and> x - x * eps - eta \<le> r)"
  using round_double_pos [OF assms] by (simp add: eps_def eta_def)

lemma pos_add:
  assumes "0 < x" "x \<le> B"
  shows "round_double x = PInf
         \<or> (\<exists>r. round_double x = Fin r \<and> 0 \<le> r \<and> x - B * eps - eta \<le> r)"
proof -
  have "x * eps \<le> B * eps" using assms(2) eps_facts(1) by (simp add: mult_right_mono)
  moreover from round_double_pos' [OF assms(1)]
  consider "round_double x = PInf"
    | r where "round_double x = Fin r" "0 \<le> r" "x - x * eps - eta \<le> r" by blast
  then show ?thesis
  proof cases
    case 1
    then show ?thesis by simp
  next
    case 2
    from 2(3) \<open>x * eps \<le> B * eps\<close> have "x - B * eps - eta \<le> r" by linarith
    with 2 show ?thesis by simp
  qed
qed

lemma final_arith:
  fixes T s v e :: rat
  assumes "32768 * e \<le> T" "0 \<le> v" "1000000 * v \<le> T" "0 < e"
    and "T - v - 100 * e \<le> 100 * s"
  shows "100 * T \<le> 101 * (100 * s - 102 * v - 100 * e)"
proof -
  have a: "10 * (10403 * v) \<le> T" using assms(2,3) by linarith
  have b: "10 * (20200 * e) \<le> 7 * T" using assms(1,4) by linarith
  have c: "101 * (T - v - 100 * e) \<le> 101 * (100 * s)" using assms(5) by simp
  have d: "101 * (100 * s - 102 * v - 100 * e) = 101 * (100 * s) - 10302 * v - 10100 * e"
    by (simp add: algebra_simps)
  have e: "101 * (T - v - 100 * e) = 101 * T - 101 * v - 10100 * e"
    by (simp add: algebra_simps)
  from a b c assms(1,4) show ?thesis unfolding d e by linarith
qed

text \<open>
Integers below \<open>2^53\<close> in magnitude are doubles.
\<close>

lemma round_pos_int:
  assumes "0 < n" "n < 2 ^ 53"
  shows "round_pos (of_int n) = Fin (of_int n)"
proof -
  let ?b = "bitlen n"
  from bitlen_bounds [OF assms(1)] have lo: "2 ^ nat (?b - 1) \<le> n" by simp
  with assms(2) have "(2::int) ^ nat (?b - 1) < 2 ^ 53" by simp
  then have "nat (?b - 1) < 53" by (rule power_less_imp_less_exp [rotated]) simp
  then have b53: "?b \<le> 53" by simp
  from assms(1) have b1: "1 \<le> ?b" using bitlen_eq_zero_iff [of n] bitlen_nonneg [of n] by linarith
  have x1: "(1::rat) \<le> of_int n" using assms(1) by simp
  then have e: "expo (of_int n) = ?b - 1" by (simp add: expo_def)
  with b1 have m: "max (expo (of_int n)) (- 1022) - 52 = - (53 - ?b)" by simp
  define k where "k = nat (53 - ?b)"
  have ulp: "(2::rat) powi (- (53 - ?b)) = 1 / 2 ^ k"
    using b53 by (simp add: power_int_def k_def power_one_over)
  have q: "(of_int n :: rat) / (1 / 2 ^ k) = of_int (n * 2 ^ k)" by simp
  have r: "(of_int (n * 2 ^ k) :: rat) * (1 / 2 ^ k) = of_int n" by simp
  have "(of_int n :: rat) < of_int (2 ^ 53)" using assms(2) by (simp only: of_int_less_iff)
  then have "(of_int n :: rat) < 2 ^ 1024" by simp
  then show ?thesis
    unfolding round_pos_def Let_def m ulp q round_half_even_int r by simp
qed

lemma round_double_int:
  assumes "\<bar>n\<bar> < 2 ^ 53"
  shows "round_double (of_int n) = Fin (of_int n)"
proof -
  consider "n = 0" | "0 < n" | "n < 0" by linarith
  then show ?thesis
  proof cases
    case 1
    then show ?thesis by (simp add: round_double_def)
  next
    case 2
    with assms round_pos_int [of n] show ?thesis by (simp add: round_double_def)
  next
    case 3
    with assms have "round_pos (of_int (- n)) = Fin (of_int (- n))"
      by (intro round_pos_int) simp_all
    with 3 show ?thesis by (simp add: round_double_def)
  qed
qed

lemma is_double_int: "\<bar>n\<bar> < 2 ^ 53 \<Longrightarrow> is_double (Fin (of_int n))"
  by (simp add: is_double_def round_double_int)

lemma is_double_250: "is_double (Fin 250)"
  using is_double_int [of 250] by simp

lemma round_double_m1: "round_double (- 1) = Fin (- 1)"
  using round_double_int [of "- 1"] by simp

text \<open>
What is less than half the smallest subnormal rounds to zero.
\<close>

lemma round_pos_tiny:
  assumes "0 < x" "x < 1 / 2 ^ 1075"
  shows "round_pos x = Fin 0"
proof -
  have e: "expo x < - 1022"
  proof (rule ccontr)
    assume "\<not> expo x < - 1022"
    then have "(2::rat) powi (- 1022) \<le> 2 powi expo x" by (intro power_int_increasing) simp_all
    also have "\<dots> \<le> x" using expo_bounds [OF assms(1)] by simp
    finally have "(2::rat) powi (- 1022) < 1 / 2 ^ 1075" using assms(2) by simp
    then show False by (simp add: power_int_def power_one_over)
  qed
  then have m: "max (expo x) (- 1022) - 52 = - 1074" by simp
  have ulp: "(2::rat) powi (- 1074) = 1 / 2 ^ 1074" by (simp add: power_int_def power_one_over)
  have q0: "0 < x / (1 / 2 ^ 1074)" using assms(1) by simp
  have q1: "x / (1 / 2 ^ 1074) < 1 / 2" using assms(2) by simp
  from q0 q1 have "\<lfloor>x / (1 / 2 ^ 1074)\<rfloor> = 0" by (simp add: floor_eq_iff)
  with q1 have "round_half_even (x / (1 / 2 ^ 1074)) = 0"
    by (simp add: round_half_even_def Let_def)
  then show ?thesis unfolding round_pos_def Let_def m ulp by simp
qed

lemma tiny_step: "js_div (Fin (1 / 2 ^ 1074)) 100 = Fin 0"
proof -
  have "round_pos (1 / 2 ^ 1074 / 100) = Fin 0" by (rule round_pos_tiny) simp_all
  then show ?thesis by (simp add: round_double_def)
qed

text \<open>
Non-negative numbers stay non-negative, and are comparable.
\<close>

lemma js_ge_zero_iff: "js_ge v (Fin 0) \<longleftrightarrow> v = PInf \<or> (\<exists>c. v = Fin c \<and> 0 \<le> c)"
  by (cases v) auto

lemma js_add_nonneg: "js_ge a (Fin 0) \<Longrightarrow> js_ge b (Fin 0) \<Longrightarrow> js_ge (js_add a b) (Fin 0)"
proof -
  assume a: "js_ge a (Fin 0)" and b: "js_ge b (Fin 0)"
  show ?thesis
  proof (cases "a = PInf \<or> b = PInf")
    case True
    with a b show ?thesis by (cases a; cases b) auto
  next
    case False
    with a b obtain x y where xy: "a = Fin x" "0 \<le> x" "b = Fin y" "0 \<le> y"
      by (auto simp: js_ge_zero_iff)
    then have "0 \<le> x + y" by simp
    from round_double_nonneg [OF this] xy show ?thesis by (auto simp: js_ge_zero_iff)
  qed
qed

lemma js_div_nonneg: "js_ge a (Fin 0) \<Longrightarrow> js_ge (js_div a 100) (Fin 0)"
proof -
  assume a: "js_ge a (Fin 0)"
  show ?thesis
  proof (cases "a = PInf")
    case True
    then show ?thesis by simp
  next
    case False
    with a obtain x where x: "a = Fin x" "0 \<le> x" by (auto simp: js_ge_zero_iff)
    then have "0 \<le> x / 100" by simp
    from round_double_nonneg [OF this] x show ?thesis by (auto simp: js_ge_zero_iff)
  qed
qed

lemma js_ge_total: "js_ge a (Fin 0) \<Longrightarrow> js_ge b (Fin 0) \<Longrightarrow> js_ge a b \<or> js_ge b a"
  by (cases a; cases b) auto

lemma js_ge_refl: "v \<noteq> NaN \<Longrightarrow> js_ge v v"
  by (cases v) auto

section \<open>Formatting\<close>

lemma toFixed_error: "fraction_digits d = Inl err \<Longrightarrow> toFixed x d = Inl err"
  by (simp add: toFixed_def)

lemma toFixed_text: "fraction_digits d = Inr f \<Longrightarrow> \<exists>s. toFixed x d = Inr s"
  by (cases x) (simp_all add: toFixed_def Let_def)

lemma digit_chars:
  "char_of (48::nat) = CHR ''0''" "char_of (49::nat) = CHR ''1''" "char_of (50::nat) = CHR ''2''"
  "char_of (51::nat) = CHR ''3''" "char_of (52::nat) = CHR ''4''" "char_of (53::nat) = CHR ''5''"
  "char_of (54::nat) = CHR ''6''" "char_of (55::nat) = CHR ''7''" "char_of (56::nat) = CHR ''8''"
  "char_of (57::nat) = CHR ''9''"
  by (simp_all add: char_of_def bit_0)

lemma dec_digits_0: "dec_digits 0 = ''0''"
  by (simp add: dec_digits.simps digit_chars)

lemma toFixed_0_0: "toFixed (Fin 0) (Fin 0) = Inr ''0''"
  by (simp add: toFixed_def fraction_digits_def fixed_digits_def dec_digits_0)

lemma fraction_digits_101: "fraction_digits (Fin 101) = Inl RangeError"
  by (simp add: fraction_digits_def)

lemma fraction_digits_1: "fraction_digits (Fin 1) = Inr 1"
  by (simp add: fraction_digits_def)

lemma dec_2500: "dec_digits 2500 = ''2500''"
  by (simp add: dec_digits.simps digit_chars)

lemma toFixed_250_1: "toFixed (Fin 250) (Fin 1) = Inr ''250.0''"
proof -
  have "\<lfloor>(of_int 5001 :: rat) / of_int 2\<rfloor> = 5001 div 2" by (rule floor_divide_of_int_eq)
  then have "\<lfloor>(5001::rat) / 2\<rfloor> = 2500" by simp
  then show ?thesis
    by (simp add: toFixed_def fraction_digits_1 fixed_digits_def dec_2500)
qed

lemma toFixed_m100_2: "toFixed (Fin (- 100)) (Fin 2) = Inr ''-100.00''"
proof -
  have "\<lfloor>(of_int 20001 :: rat) / of_int 2\<rfloor> = 20001 div 2" by (rule floor_divide_of_int_eq)
  then have "\<lfloor>(20001::rat) / 2\<rfloor> = 10000" by simp
  moreover have "dec_digits 10000 = ''10000''" by (simp add: dec_digits.simps digit_chars)
  ultimately show ?thesis
    by (simp add: toFixed_def fraction_digits_def fixed_digits_def)
qed

lemma digit_not_dot: "d < 10 \<Longrightarrow> char_of (48 + d :: nat) \<noteq> CHR ''.''"
proof
  assume d: "d < 10" and eq: "char_of (48 + d) = CHR ''.''"
  from eq have "(of_char (char_of (48 + d)) :: nat) = of_char CHR ''.''" by simp
  with d show False by simp
qed

lemma dec_digits_no_dot: "CHR ''.'' \<notin> set (dec_digits n)"
proof (induction n rule: dec_digits.induct)
  case (1 n)
  show ?case
  proof (cases "n < 10")
    case True
    then show ?thesis using digit_not_dot [of n] by (subst dec_digits.simps) auto
  next
    case False
    have "n mod 10 < 10" by simp
    from digit_not_dot [OF this] 1 [OF False] False show ?thesis
      by (subst dec_digits.simps) auto
  qed
qed

lemma frac_len_no_dot: "CHR ''.'' \<notin> set s \<Longrightarrow> frac_len s = 0"
  by (simp add: frac_len_def)

lemma frac_len_dot:
  assumes "CHR ''.'' \<notin> set b"
  shows "frac_len (a @ ''.'' @ b) = length b"
proof -
  have "takeWhile (\<lambda>c. c \<noteq> CHR ''.'') (rev b @ CHR ''.'' # rev a) = rev b"
    using assms by (auto simp: takeWhile_tail)
  then show ?thesis by (simp add: frac_len_def)
qed

lemma fixed_digits_frac_len:
  assumes "CHR ''.'' \<notin> set sg"
  shows "frac_len (sg @ fixed_digits x f) = f"
proof (cases "f = 0")
  case True
  with assms dec_digits_no_dot show ?thesis
    by (simp add: fixed_digits_def Let_def frac_len_no_dot)
next
  case False
  define m where "m = dec_digits (nat \<lfloor>x * 10 ^ f + 1 / 2\<rfloor>)"
  define m' where "m' = (if length m \<le> f then replicate (f + 1 - length m) CHR ''0'' @ m else m)"
  have nd: "CHR ''.'' \<notin> set m'" using dec_digits_no_dot [of "nat \<lfloor>x * 10 ^ f + 1 / 2\<rfloor>"]
    by (auto simp: m'_def m_def)
  have len: "f < length m'" by (auto simp: m'_def)
  have fd: "fixed_digits x f = take (length m' - f) m' @ ''.'' @ drop (length m' - f) m'"
    using False by (simp add: fixed_digits_def Let_def m'_def m_def)
  have "CHR ''.'' \<notin> set (drop (length m' - f) m')" using nd by (meson in_set_dropD)
  then have "frac_len ((sg @ take (length m' - f) m') @ ''.'' @ drop (length m' - f) m')
             = length (drop (length m' - f) m')"
    by (rule frac_len_dot)
  with len fd show ?thesis by simp
qed

lemma toFixed_frac_len:
  assumes "fraction_digits d = Inr f" "\<bar>r\<bar> < 10 ^ 21"
  shows "\<exists>s. toFixed (Fin r) d = Inr s \<and> frac_len s = f"
proof -
  have "frac_len ((if r < 0 then ''-'' else '''') @ fixed_digits \<bar>r\<bar> f) = f"
    by (rule fixed_digits_frac_len) simp
  with assms show ?thesis by (simp add: toFixed_def Let_def)
qed

section \<open>One counter\<close>

lemma callback_fields [simp]:
  "el (fst (callback t)) = el t"
  "target (fst (callback t)) = target t"
  "decimals (fst (callback t)) = decimals t"
  "step (fst (callback t)) = step t"
  "delay (fst (callback t)) = delay t"
  by (simp_all add: callback_def add_step_def clamp_def Let_def)

lemma callback_render: "snd (callback t) = toFixed (count (fst (callback t))) (decimals t)"
  by (simp add: callback_def render_def add_step_def clamp_def Let_def)

lemma callback_count:
  "count (fst (callback t)) =
     (if js_ge (js_add (count t) (step t)) (target t) then target t
      else js_add (count t) (step t))"
  by (simp add: callback_def add_step_def clamp_def Let_def)

lemma callback_active:
  "active (fst (callback t)) = (active t \<and> \<not> js_ge (js_add (count t) (step t)) (target t))"
  by (simp add: callback_def add_step_def clamp_def Let_def)

lemma callback_spec: "callback t = spec_tick t"
  by (simp add: callback_def spec_tick_def add_step_def clamp_def render_def Let_def)

lemma ticks_inactive [simp]: "\<not> active t \<Longrightarrow> ticks n t = t"
  by (cases n) simp_all

lemma renders_inactive [simp]: "\<not> active t \<Longrightarrow> renders n t = []"
  by (cases n) simp_all

lemma ticks_fields [simp]:
  "el (ticks n t) = el t"
  "target (ticks n t) = target t"
  "decimals (ticks n t) = decimals t"
  "step (ticks n t) = step t"
  "delay (ticks n t) = delay t"
  by (induction n arbitrary: t; simp)+

lemma ticks_Suc_right:
  "ticks (Suc n) t = (if active (ticks n t) then fst (callback (ticks n t)) else ticks n t)"
proof (induction n arbitrary: t)
  case 0
  show ?case by simp
next
  case (Suc n)
  show ?case
  proof (cases "active t")
    case True
    then have "ticks (Suc (Suc n)) t = ticks (Suc n) (fst (callback t))" by simp
    also have "\<dots> = (if active (ticks n (fst (callback t)))
                      then fst (callback (ticks n (fst (callback t))))
                      else ticks n (fst (callback t)))"
      by (rule Suc.IH)
    finally show ?thesis using True by simp
  next
    case False
    then show ?thesis by simp
  qed
qed

lemma ticks_stays_inactive: "\<not> active (ticks m t) \<Longrightarrow> m \<le> n \<Longrightarrow> ticks n t = ticks m t"
proof (induction n)
  case 0
  then show ?case by simp
next
  case (Suc n)
  show ?case
  proof (cases "m = Suc n")
    case True
    then show ?thesis by simp
  next
    case False
    with Suc.prems have "m \<le> n" by simp
    with Suc have eq: "ticks n t = ticks m t" by simp
    with Suc.prems(1) show ?thesis by (simp add: ticks_Suc_right del: ticks.simps)
  qed
qed

lemma ticks_active_before: "active (ticks n t) \<Longrightarrow> m \<le> n \<Longrightarrow> active (ticks m t)"
proof (rule ccontr)
  assume a: "active (ticks n t)" and le: "m \<le> n" and n: "\<not> active (ticks m t)"
  from n le have "ticks n t = ticks m t" by (rule ticks_stays_inactive)
  with a n show False by simp
qed

lemma renders_length_le: "length (renders n t) \<le> n"
  by (induction n arbitrary: t) simp_all

lemma renders_length_settled: "\<not> active (ticks m t) \<Longrightarrow> length (renders n t) \<le> m"
proof (induction m arbitrary: t n)
  case 0
  then show ?case by simp
next
  case (Suc m)
  show ?case
  proof (cases "active t")
    case False
    then show ?thesis by simp
  next
    case True
    with Suc.prems have "\<not> active (ticks m (fst (callback t)))" by simp
    then have "length (renders k (fst (callback t))) \<le> m" for k by (rule Suc.IH)
    with True show ?thesis by (cases n) simp_all
  qed
qed

lemma renders_length_active: "active (ticks n t) \<Longrightarrow> length (renders n t) = n"
proof (induction n arbitrary: t)
  case 0
  show ?case by simp
next
  case (Suc n)
  then have a: "active t" by (cases "active t") simp_all
  with Suc.prems have "active (ticks n (fst (callback t)))" by simp
  then have "length (renders n (fst (callback t))) = n" by (rule Suc.IH)
  with a show ?case by simp
qed

lemma renders_nth:
  "k < length (renders n t) \<Longrightarrow> renders n t ! k = toFixed (count (ticks (Suc k) t)) (decimals t)"
proof (induction n arbitrary: t k)
  case 0
  then show ?case by simp
next
  case (Suc n)
  then have a: "active t" by (cases "active t") simp_all
  show ?case
  proof (cases k)
    case 0
    with a show ?thesis by (simp add: callback_render)
  next
    case (Suc j)
    with Suc.prems a have "j < length (renders n (fst (callback t)))" by simp
    then have "renders n (fst (callback t)) ! j
               = toFixed (count (ticks (Suc j) (fst (callback t)))) (decimals (fst (callback t)))"
      by (rule Suc.IH)
    with a Suc show ?thesis by simp
  qed
qed

text \<open>
The tick that clears the timer leaves the target in \<open>count\<close> and renders it.
\<close>

lemma settle_tick:
  assumes "active t" "\<not> active (fst (callback t))"
  shows "count (fst (callback t)) = target t"
    and "snd (callback t) = toFixed (target t) (decimals t)"
  using assms by (simp_all add: callback_def add_step_def clamp_def render_def Let_def split: if_splits)

lemma settled_last_render:
  "active t \<Longrightarrow> \<not> active (ticks n t) \<Longrightarrow>
   count (ticks n t) = target t \<and> renders n t \<noteq> []
   \<and> last (renders n t) = toFixed (target t) (decimals t)"
proof (induction n arbitrary: t)
  case 0
  then show ?case by simp
next
  case (Suc n)
  let ?t' = "fst (callback t)"
  show ?case
  proof (cases "active ?t'")
    case True
    from Suc.prems have "\<not> active (ticks n ?t')" by simp
    with True have "count (ticks n ?t') = target ?t' \<and> renders n ?t' \<noteq> []
        \<and> last (renders n ?t') = toFixed (target ?t') (decimals ?t')"
      by (rule Suc.IH)
    with Suc.prems(1) show ?thesis by simp
  next
    case False
    with Suc.prems(1) settle_tick [of t] show ?thesis by simp
  qed
qed

lemma written_all_errors: "\<forall>r \<in> set rs. \<exists>err. r = Inl err \<Longrightarrow> written rs = []"
  by (induction rs rule: written.induct) auto

lemma written_all_texts:
  "\<forall>r \<in> set rs. \<exists>s. r = Inr s \<Longrightarrow> rs \<noteq> [] \<Longrightarrow>
   written rs \<noteq> [] \<and> Inr (last (written rs)) = last rs"
proof (induction rs rule: written.induct)
  case 1
  then show ?case by simp
next
  case (2 s rs)
  then show ?case by (cases rs) auto
next
  case (3 e rs)
  then show ?case by simp
qed

lemma renders_are_toFixed: "r \<in> set (renders n t) \<Longrightarrow> \<exists>c. r = toFixed c (decimals t)"
proof (induction n arbitrary: t)
  case 0
  then show ?case by simp
next
  case (Suc n)
  show ?case
  proof (cases "active t")
    case False
    with Suc.prems show ?thesis by simp
  next
    case True
    with Suc.prems have "r = snd (callback t) \<or> r \<in> set (renders n (fst (callback t)))"
      by simp
    then show ?thesis
    proof
      assume "r = snd (callback t)"
      then show ?thesis by (auto simp: callback_render)
    next
      assume "r \<in> set (renders n (fst (callback t)))"
      then have "\<exists>c. r = toFixed c (decimals (fst (callback t)))" by (rule Suc.IH)
      then show ?thesis by simp
    qed
  qed
qed

lemma last_written:
  assumes "rs = renders n t" "rs \<noteq> []" "written rs \<noteq> []"
  shows "Inr (last (written rs)) = last rs"
proof (cases "fraction_digits (decimals t)")
  case (Inl err)
  then have "\<forall>r \<in> set rs. \<exists>e. r = Inl e"
    using assms(1) renders_are_toFixed [of _ n t] by (auto simp: toFixed_error)
  then have "written rs = []" by (rule written_all_errors)
  with assms(3) show ?thesis by simp
next
  case (Inr f)
  have "\<forall>r \<in> set rs. \<exists>s. r = Inr s"
  proof
    fix r assume "r \<in> set rs"
    then obtain c where "r = toFixed c (decimals t)"
      using assms(1) renders_are_toFixed [of r n t] by auto
    with toFixed_text [OF Inr, of c] show "\<exists>s. r = Inr s" by simp
  qed
  with assms(2) show ?thesis using written_all_texts by blast
qed

lemma start_timer_simps [simp]:
  "el (start_timer i e) = i"
  "target (start_timer i e) = data_target e"
  "decimals (start_timer i e) = data_decimals e"
  "count (start_timer i e) = Fin 0"
  "step (start_timer i e) = js_div (data_target e) 100"
  "delay (start_timer i e) = 20"
  "active (start_timer i e)"
  by (simp_all add: start_timer_def)

lemma callback_settles:
  "active t \<Longrightarrow> js_ge (js_add (count t) (step t)) (target t) \<Longrightarrow> \<not> active (ticks (Suc n) t)"
  by (simp add: callback_active)

text \<open>
A counter with a non-negative target never holds more than its target.
\<close>

lemma callback_bounded: "bounded t \<Longrightarrow> bounded (fst (callback t))"
proof -
  assume b: "bounded t"
  let ?v = "js_add (count t) (step t)"
  from b have v: "js_ge ?v (Fin 0)" by (simp add: bounded_def js_add_nonneg)
  from b have T: "js_ge (target t) (Fin 0)" by (simp add: bounded_def)
  then have "target t \<noteq> NaN" by auto
  then have r: "js_ge (target t) (target t)" by (rule js_ge_refl)
  show ?thesis
  proof (cases "js_ge ?v (target t)")
    case True
    with b r show ?thesis by (simp add: bounded_def callback_count)
  next
    case False
    with js_ge_total [OF v T] have "js_ge (target t) ?v" by simp
    with b v False show ?thesis by (simp add: bounded_def callback_count)
  qed
qed

lemma ticks_bounded: "bounded t \<Longrightarrow> bounded (ticks n t)"
  by (induction n arbitrary: t) (simp_all add: callback_bounded)

lemma start_bounded: "js_ge (data_target e) (Fin 0) \<Longrightarrow> bounded (start_timer i e)"
  by (simp add: bounded_def js_div_nonneg)

text \<open>
A target that is zero, negative or infinite is reached by the first tick.
\<close>

lemma neg_step:
  assumes "is_double (Fin r)" "r < 0"
  shows "\<exists>s c. round_double (r / 100) = Fin s \<and> r \<le> s \<and> s \<le> 0
               \<and> round_double (0 + s) = Fin c \<and> r \<le> c \<and> c \<le> 0"
proof -
  from is_double_range [OF assms(1)] assms(2) have rng: "- r < 2 ^ 1024" by simp
  have x: "r / 100 \<le> 0" using assms(2) by simp
  have "- (r / 100) < 2 ^ 1023" using rng by simp
  from round_double_nonpos [OF x this] obtain s
    where s: "round_double (r / 100) = Fin s" "2 * (r / 100) \<le> s" "s \<le> 0" by blast
  have "- s < 2 ^ 1023" using s(2) rng by simp
  from round_double_nonpos [OF s(3) this] obtain c
    where c: "round_double s = Fin c" "2 * s \<le> c" "c \<le> 0" by blast
  from s(2) assms(2) have "r \<le> s" by simp
  moreover from c(2) s(2) assms(2) have "r \<le> c" by simp
  ultimately show ?thesis using s c by simp
qed

lemma first_tick_settles:
  assumes "is_double (data_target e)"
    and "data_target e = NInf \<or> data_target e = PInf \<or> (\<exists>r. data_target e = Fin r \<and> r \<le> 0)"
  shows "js_ge (js_add (Fin 0) (js_div (data_target e) 100)) (data_target e)"
proof -
  from assms(2) consider "data_target e = NInf" | "data_target e = PInf"
    | "data_target e = Fin 0" | r where "data_target e = Fin r" "r < 0"
    by (auto simp: le_less)
  then show ?thesis
  proof cases
    case 1
    then show ?thesis by simp
  next
    case 2
    then show ?thesis by simp
  next
    case 3
    then show ?thesis by (simp add: round_double_def)
  next
    case 4
    with assms(1) have "is_double (Fin r)" by simp
    from neg_step [OF this 4(2)] 4(1) show ?thesis by auto
  qed
qed

lemma neg_first_callback:
  assumes "is_double (data_target e)" "data_target e = Fin r" "r < 0"
  shows "callback (start_timer i e)
         = ((start_timer i e)\<lparr>count := Fin r, active := False\<rparr>, toFixed (Fin r) (data_decimals e))"
proof -
  from assms have d: "is_double (Fin r)" by simp
  from neg_step [OF d assms(3)] obtain s c
    where s: "round_double (r / 100) = Fin s" and c: "round_double (0 + s) = Fin c" "r \<le> c"
    by blast
  then have "js_ge (js_add (count (start_timer i e)) (step (start_timer i e))) (Fin r)"
    using assms(2) by simp
  then show ?thesis
    using assms(2) by (simp add: callback_def add_step_def clamp_def render_def Let_def)
qed

text \<open>
  A positive target: as long as the timer is active the running value is below the target
  and has grown by at least the step less the rounding error at every tick, so that 101
  ticks are enough once the target is \<open>2^-1060\<close> or more.
\<close>

lemma pos_progress:
  fixes T s :: rat
  assumes tgt: "target t = Fin T" and st: "step t = Fin s" and c0: "count t = Fin 0"
    and T0: "0 \<le> T" and s0: "0 < s" and s2: "s \<le> T / 50"
  shows "active (ticks k t) \<Longrightarrow>
         \<exists>c. count (ticks k t) = Fin c \<and> 0 \<le> c \<and> c \<le> T \<and> (0 < k \<longrightarrow> c < T)
             \<and> of_nat k * (100 * s - 102 * (T * eps) - 100 * eta) \<le> 100 * c"
proof (induction k)
  case 0
  with c0 T0 show ?case by simp
next
  case (Suc k)
  let ?tk = "ticks k t"
  from Suc.prems have ak: "active ?tk" by (rule ticks_active_before) simp
  from Suc.IH [OF ak] obtain c where c: "count ?tk = Fin c" "0 \<le> c" "c \<le> T"
    "of_nat k * (100 * s - 102 * (T * eps) - 100 * eta) \<le> 100 * c" by blast
  have nxt: "ticks (Suc k) t = fst (callback ?tk)" using ak by (simp only: ticks_Suc_right if_True)
  have sum: "js_add (count ?tk) (step ?tk) = round_double (c + s)" using c(1) st by simp
  from Suc.prems nxt have "active (fst (callback ?tk))" by simp
  then have nge: "\<not> js_ge (round_double (c + s)) (Fin T)"
    using sum tgt by (simp add: callback_active)
  have pos: "0 < c + s" using c(2) s0 by simp
  have le: "c + s \<le> 102 / 100 * T" using c(3) s2 by simp
  from pos_add [OF pos le] nge obtain c'
    where c': "round_double (c + s) = Fin c'" "0 \<le> c'" "c + s - 102 / 100 * T * eps - eta \<le> c'"
    by auto
  from nge c'(1) have lt: "c' < T" by simp
  have cnt: "count (ticks (Suc k) t) = Fin c'"
    using nxt sum nge c'(1) tgt by (simp add: callback_count)
  have "of_nat (Suc k) * (100 * s - 102 * (T * eps) - 100 * eta)
        = of_nat k * (100 * s - 102 * (T * eps) - 100 * eta) + (100 * s - 102 * (T * eps) - 100 * eta)"
    by (simp add: algebra_simps)
  also have "\<dots> \<le> 100 * c + (100 * s - 102 * (T * eps) - 100 * eta)" using c(4) by simp
  also have "\<dots> \<le> 100 * c'" using c'(3) by (simp add: algebra_simps)
  finally have "of_nat (Suc k) * (100 * s - 102 * (T * eps) - 100 * eta) \<le> 100 * c'" .
  with cnt c'(2) lt show ?case by simp
qed

lemma pos_settles:
  assumes "1 / 2 ^ 1060 \<le> T" "data_target e = Fin T"
  shows "\<not> active (ticks 101 (start_timer i e))"
proof -
  let ?t = "start_timer i e"
  have e32: "32768 * eta \<le> T" using assms(1) eta_facts(2) by simp
  with eta_facts(1) have T0: "0 < T" by linarith
  define v where "v = T * eps"
  have v0: "0 \<le> v" using T0 eps_facts(1) by (simp add: v_def)
  have "T * (1000000 * eps) \<le> T * 1" using T0 eps_facts(2) by (simp only: mult_left_mono less_imp_le)
  then have v6: "1000000 * v \<le> T" by (simp add: v_def algebra_simps)
  have x0: "0 < T / 100" using T0 by simp
  from round_double_pos' [OF x0]
  consider "round_double (T / 100) = PInf"
    | s where "round_double (T / 100) = Fin s" "0 \<le> s" "s \<le> 2 * (T / 100)"
        "T / 100 - T / 100 * eps - eta \<le> s"
    by blast
  then show ?thesis
  proof cases
    case 1
    with assms(2) have "js_ge (js_add (count ?t) (step ?t)) (target ?t)" by simp
    with callback_settles [of ?t 100] show ?thesis by simp
  next
    case 2
    from 2(4) have lo: "T - v - 100 * eta \<le> 100 * s" by (simp add: v_def field_simps)
    have "0 < T - v - 100 * eta" using v6 e32 T0 eta_facts(1) by linarith
    with lo have s0: "0 < s" by linarith
    from 2(3) have s2: "s \<le> T / 50" by simp
    have st: "step ?t = Fin s" using 2(1) assms(2) by simp
    have fin: "100 * T \<le> 101 * (100 * s - 102 * v - 100 * eta)"
      using e32 v0 v6 eta_facts(1) lo by (rule final_arith)
    show ?thesis
    proof
      assume "active (ticks 101 ?t)"
      from pos_progress [of ?t T s 101, OF _ st _ _ s0 s2 this] assms(2) T0
      obtain c where "c < T" "of_nat 101 * (100 * s - 102 * (T * eps) - 100 * eta) \<le> 100 * c"
        by auto
      with fin show False by (simp add: v_def)
    qed
  qed
qed

text \<open>
A target that is \<open>NaN\<close>, and a step that rounding has made zero.
\<close>

lemma nan_ticks:
  assumes "target t = NaN" "step t = NaN" "active t"
  shows "active (ticks n t) \<and> (0 < n \<longrightarrow> count (ticks n t) = NaN)
         \<and> renders n t = replicate n (toFixed NaN (decimals t))"
  using assms
proof (induction n arbitrary: t)
  case 0
  then show ?case by simp
next
  case (Suc n)
  let ?t' = "fst (callback t)"
  have sum: "js_add (count t) (step t) = NaN" using Suc.prems(2) by (cases "count t") simp_all
  then have a: "active ?t'" and c: "count ?t' = NaN"
    using Suc.prems by (simp_all add: callback_active callback_count)
  have r: "snd (callback t) = toFixed NaN (decimals t)" using c by (simp add: callback_render)
  have "target ?t' = NaN" "step ?t' = NaN" using Suc.prems by simp_all
  from Suc.IH [OF this a] have ih: "active (ticks n ?t')"
    "0 < n \<longrightarrow> count (ticks n ?t') = NaN"
    "renders n ?t' = replicate n (toFixed NaN (decimals t))" by simp_all
  have "count (ticks n ?t') = NaN" using ih(2) c by (cases n) simp_all
  with ih r Suc.prems(3) show ?case by simp
qed

lemma stuck_ticks:
  assumes "target t = Fin T" "0 < T" "step t = Fin 0" "count t = Fin 0" "active t"
  shows "active (ticks n t) \<and> count (ticks n t) = Fin 0"
  using assms
proof (induction n arbitrary: t)
  case 0
  then show ?case by simp
next
  case (Suc n)
  let ?t' = "fst (callback t)"
  have sum: "js_add (count t) (step t) = Fin 0" using Suc.prems by (simp add: round_double_def)
  with Suc.prems have a: "active ?t'" and c: "count ?t' = Fin 0"
    by (simp_all add: callback_active callback_count)
  from Suc.prems have "target ?t' = Fin T" "step ?t' = Fin 0" by simp_all
  from Suc.IH [OF this(1) Suc.prems(2) this(2) c a] Suc.prems(5) show ?case by simp
qed

text \<open>
A timer that fires leaves the other timers as they are.
\<close>

lemma fire_others:
  "j \<noteq> i \<Longrightarrow> timers (snd (fire i p)) ! j = timers p ! j"
  by (auto simp: fire_def split: prod.splits sum.splits)

section \<open>The animation of a counter\<close>

text \<open>
  C2.  When the animation of a counter has terminated (its timer is cleared after \<open>n\<close>
  ticks), whatever the target (zero and negative targets included), the running value is
  the target itself, the last render is that of the exact target with the counter's
  \<open>decimals\<close>, and the last text written to the element, when any was written, is the
  target so formatted: on the tick that clears the timer, \<open>count\<close> is set to \<open>target\<close>
  before the render.
\<close>

theorem terminal_value_exact:
  assumes "\<not> active (ticks n (start_timer i e))"
  shows "count (ticks n (start_timer i e)) = data_target e
         \<and> renders n (start_timer i e) \<noteq> []
         \<and> last (renders n (start_timer i e)) = toFixed (data_target e) (data_decimals e)
         \<and> (written (renders n (start_timer i e)) \<noteq> [] \<longrightarrow>
              Inr (last (written (renders n (start_timer i e))))
              = toFixed (data_target e) (data_decimals e))"
proof -
  let ?t = "start_timer i e"
  have "active ?t" by simp
  from settled_last_render [OF this assms]
  have a: "count (ticks n ?t) = data_target e" and b: "renders n ?t \<noteq> []"
    and c: "last (renders n ?t) = toFixed (data_target e) (data_decimals e)"
    by simp_all
  have "written (renders n ?t) \<noteq> [] \<longrightarrow> Inr (last (written (renders n ?t))) = last (renders n ?t)"
    using last_written [OF refl b] by blast
  with a b c show ?thesis by simp
qed

text \<open>
  The counter of the scenario \<open>target="250"\<close>, \<open>decimals="1"\<close> has terminated after 101
  ticks and its last text is \<open>250.0\<close>.
\<close>

theorem terminal_value_exact_witness:
  "\<not> active (ticks 101 (start_timer 0 counter_250))
   \<and> count (ticks 101 (start_timer 0 counter_250)) = Fin 250
   \<and> last (renders 101 (start_timer 0 counter_250)) = Inr ''250.0''"
proof -
  have "(1::rat) / 2 ^ 1060 \<le> 250" by simp
  moreover have "data_target counter_250 = Fin 250" by (simp add: counter_250_def)
  ultimately have h: "\<not> active (ticks 101 (start_timer 0 counter_250))" by (rule pos_settles)
  from terminal_value_exact [OF h] h show ?thesis
    by (simp add: counter_250_def toFixed_250_1)
qed

text \<open>
  C3, as amended.  For every counter whose parsed target is a double other than \<open>NaN\<close>
  and is zero, negative, infinite, or at least \<open>2^-1060\<close>, the callback runs at most
  101 times: the timer is cleared after 101 ticks at the latest.
\<close>

theorem tick_count_bound:
  assumes "is_double (data_target e)" "data_target e \<noteq> NaN"
    and "\<forall>r. data_target e = Fin r \<longrightarrow> r \<le> 0 \<or> 1 / 2 ^ 1060 \<le> r"
  shows "\<not> active (ticks 101 (start_timer i e)) \<and> length (renders n (start_timer i e)) \<le> 101"
proof -
  let ?t = "start_timer i e"
  have "\<not> active (ticks 101 ?t)"
  proof (cases "\<exists>r. data_target e = Fin r \<and> 0 < r")
    case True
    then obtain r where r: "data_target e = Fin r" "0 < r" by blast
    with assms(3) have "1 / 2 ^ 1060 \<le> r" by auto
    from pos_settles [OF this r(1)] show ?thesis .
  next
    case False
    with assms(2) have "data_target e = NInf \<or> data_target e = PInf
        \<or> (\<exists>r. data_target e = Fin r \<and> r \<le> 0)"
      by (cases "data_target e") (auto simp: not_less)
    from first_tick_settles [OF assms(1) this]
    have "js_ge (js_add (count ?t) (step ?t)) (target ?t)" by simp
    with callback_settles [of ?t 100] show ?thesis by simp
  qed
  then show ?thesis using renders_length_settled [of 101 ?t n] by simp
qed

theorem tick_count_bound_witness:
  "is_double (data_target counter_250) \<and> data_target counter_250 \<noteq> NaN
   \<and> \<not> active (ticks 101 (start_timer 0 counter_250))
   \<and> length (renders 500 (start_timer 0 counter_250)) \<le> 101"
proof -
  have a: "is_double (data_target counter_250)" by (simp add: counter_250_def is_double_250)
  have b: "data_target counter_250 \<noteq> NaN" by (simp add: counter_250_def)
  have c: "\<forall>r. data_target counter_250 = Fin r \<longrightarrow> r \<le> 0 \<or> 1 / 2 ^ 1060 \<le> r"
    by (simp add: counter_250_def)
  from tick_count_bound [OF a b c, of 0 500] a b show ?thesis by simp
qed

text \<open>
  C3 as stated (at most 101 runs regardless of the parsed target) fails: with the target
  \<open>NaN\<close>, and with the target \<open>5e-324\<close>, whose hundredth rounds to zero, the callback has
  run 102 times and the timer is still active.
\<close>

theorem tick_count_unbounded:
  "active (ticks 102 (start_timer 0 counter_nan))
   \<and> length (renders 102 (start_timer 0 counter_nan)) = 102
   \<and> active (ticks 102 (start_timer 0 counter_tiny))
   \<and> length (renders 102 (start_timer 0 counter_tiny)) = 102"
proof -
  have n: "active (ticks 102 (start_timer 0 counter_nan))"
    using nan_ticks [of "start_timer 0 counter_nan" 102] by (simp add: counter_nan_def)
  have "step (start_timer 0 counter_tiny) = Fin 0"
    using tiny_step by (simp add: counter_tiny_def)
  then have t: "active (ticks 102 (start_timer 0 counter_tiny))"
    using stuck_ticks [of "start_timer 0 counter_tiny" "1 / 2 ^ 1074" 102]
    by (simp add: counter_tiny_def)
  from n t show ?thesis by (simp add: renders_length_active)
qed

text \<open>
  C4, as amended.  For every strictly negative target the step \<open>target / 100\<close> is zero
  or negative and not below the target, so the clamp condition \<open>count >= target\<close> holds
  on the very first tick, with the running value still above the target or equal to it:
  that tick sets the running value to the exact negative target, clears the timer and
  renders the target, and no second tick runs.
\<close>

theorem negative_target_first_tick:
  assumes "is_double (data_target e)" "data_target e = Fin r" "r < 0"
  shows "(\<exists>s. step (start_timer i e) = Fin s \<and> r \<le> s \<and> s \<le> 0)
         \<and> js_ge (js_add (count (start_timer i e)) (step (start_timer i e))) (Fin r)
         \<and> callback (start_timer i e)
             = ((start_timer i e)\<lparr>count := Fin r, active := False\<rparr>,
                toFixed (Fin r) (data_decimals e))
         \<and> renders (Suc n) (start_timer i e) = [toFixed (Fin r) (data_decimals e)]"
proof -
  let ?t = "start_timer i e"
  from assms have d: "is_double (Fin r)" by simp
  from neg_step [OF d assms(3)] obtain s c
    where s: "round_double (r / 100) = Fin s" "r \<le> s" "s \<le> 0"
      and c: "round_double (0 + s) = Fin c" "r \<le> c" by blast
  have st: "step ?t = Fin s" using assms(2) s(1) by simp
  have ge: "js_ge (js_add (count ?t) (step ?t)) (Fin r)" using st c by simp
  then have cb: "callback ?t = (?t\<lparr>count := Fin r, active := False\<rparr>, toFixed (Fin r) (data_decimals e))"
    using assms(2) by (simp add: callback_def add_step_def clamp_def render_def Let_def)
  then have "renders (Suc n) ?t = [toFixed (Fin r) (data_decimals e)]" by simp
  with st s ge cb show ?thesis by blast
qed

theorem negative_target_first_tick_witness:
  "is_double (data_target counter_neg) \<and> data_target counter_neg = Fin (- 100) \<and> (- 100 :: rat) < 0
   \<and> renders 5 (start_timer 0 counter_neg) = [Inr ''-100.00'']"
proof -
  have a: "is_double (data_target counter_neg)"
    using is_double_int [of "- 100"] by (simp add: counter_neg_def)
  have b: "data_target counter_neg = Fin (- 100)" by (simp add: counter_neg_def)
  have c: "(- 100 :: rat) < 0" by simp
  have d: "toFixed (Fin (- 100)) (data_decimals counter_neg) = Inr ''-100.00''"
    by (simp add: counter_neg_def toFixed_m100_2)
  from negative_target_first_tick [OF a b c, of 0 4] a b d show ?thesis by simp
qed

text \<open>
  C4 as stated (the running value decreases tick by tick and the clamp condition becomes
  true once it has passed the target downward) fails: for the target -100 the first tick
  brings the running value to -1, which is above -100 and has not passed it, yet the clamp
  condition holds there and that tick ends the animation at -100.
\<close>

theorem negative_target_not_passed:
  "js_add (count (start_timer 0 counter_neg)) (step (start_timer 0 counter_neg)) = Fin (- 1)
   \<and> js_ge (Fin (- 1)) (target (start_timer 0 counter_neg))
   \<and> \<not> js_ge (target (start_timer 0 counter_neg)) (Fin (- 1))
   \<and> \<not> active (fst (callback (start_timer 0 counter_neg)))
   \<and> count (fst (callback (start_timer 0 counter_neg))) = Fin (- 100)"
proof -
  have "(- 100 :: rat) / 100 = - 1" by simp
  then have st: "step (start_timer 0 counter_neg) = Fin (- 1)"
    by (simp add: counter_neg_def round_double_m1)
  then have sum: "js_add (count (start_timer 0 counter_neg)) (step (start_timer 0 counter_neg)) = Fin (- 1)"
    by (simp add: round_double_m1)
  have tg: "target (start_timer 0 counter_neg) = Fin (- 100)" by (simp add: counter_neg_def)
  from sum tg show ?thesis by (simp add: callback_active callback_count)
qed

text \<open>
  C6, as amended.  For each counter the running value starts at 0, the increment per tick
  is \<open>target / 100\<close> and the timer's interval is 20, both unchanged by a tick.  A tick
  does what the specification says (\<open>spec_tick\<close>): it adds the step, clamps the running
  value to the target and clears this counter's own timer, no other, once the target is
  reached or exceeded, and then formats the running value with \<open>toFixed(decimals)\<close>.
  When \<open>decimals\<close> is outside 0..100, \<open>toFixed\<close> raises \<open>RangeError\<close> and nothing is
  written.  Otherwise a text is written, and it has exactly \<open>decimals\<close> fractional
  digits whenever the running value is finite and less than \<open>10^21\<close> in magnitude.
\<close>

theorem per_tick_algorithm:
  "count (start_timer i e) = Fin 0
   \<and> step (start_timer i e) = js_div (data_target e) 100
   \<and> delay (start_timer i e) = 20
   \<and> step (fst (callback t)) = step t
   \<and> delay (fst (callback t)) = delay t
   \<and> callback t = spec_tick t
   \<and> (\<forall>j. j \<noteq> k \<longrightarrow> timers (snd (fire k p)) ! j = timers p ! j)
   \<and> (\<forall>err. fraction_digits (decimals t) = Inl err \<longrightarrow> snd (callback t) = Inl err)
   \<and> (\<forall>f. fraction_digits (decimals t) = Inr f \<longrightarrow>
         (\<exists>s. snd (callback t) = Inr s
              \<and> (\<forall>r. count (fst (callback t)) = Fin r \<and> \<bar>r\<bar> < 10 ^ 21 \<longrightarrow> frac_len s = f)))"
proof -
  have a: "\<forall>err. fraction_digits (decimals t) = Inl err \<longrightarrow> snd (callback t) = Inl err"
    by (simp add: callback_render toFixed_error)
  have b: "\<forall>f. fraction_digits (decimals t) = Inr f \<longrightarrow>
         (\<exists>s. snd (callback t) = Inr s
              \<and> (\<forall>r. count (fst (callback t)) = Fin r \<and> \<bar>r\<bar> < 10 ^ 21 \<longrightarrow> frac_len s = f))"
  proof (intro allI impI)
    fix f assume f: "fraction_digits (decimals t) = Inr f"
    from toFixed_text [OF f, of "count (fst (callback t))"] obtain s
      where s: "toFixed (count (fst (callback t))) (decimals t) = Inr s" by blast
    have "\<forall>r. count (fst (callback t)) = Fin r \<and> \<bar>r\<bar> < 10 ^ 21 \<longrightarrow> frac_len s = f"
    proof (intro allI impI)
      fix r assume r: "count (fst (callback t)) = Fin r \<and> \<bar>r\<bar> < 10 ^ 21"
      with toFixed_frac_len [OF f, of r] s show "frac_len s = f" by simp
    qed
    with s show "\<exists>s. snd (callback t) = Inr s
              \<and> (\<forall>r. count (fst (callback t)) = Fin r \<and> \<bar>r\<bar> < 10 ^ 21 \<longrightarrow> frac_len s = f)"
      by (simp add: callback_render)
  qed
  have c: "\<forall>j. j \<noteq> k \<longrightarrow> timers (snd (fire k p)) ! j = timers p ! j"
    by (simp add: fire_others)
  have d: "callback t = spec_tick t" by (rule callback_spec)
  have e: "step (fst (callback t)) = step t" "delay (fst (callback t)) = delay t" by simp_all
  have f: "count (start_timer i e) = Fin 0" "step (start_timer i e) = js_div (data_target e) 100"
    "delay (start_timer i e) = 20" by simp_all
  from a b c d e f show ?thesis by blast
qed

lemma ready_visible:
  "snd (DOMContentLoaded (Some [c]) visible)
   = \<lparr>started = True, counters = [c], timers = [start_timer 0 c], scroll_listeners = 1\<rparr>"
  by (simp add: DOMContentLoaded_def page_init_def animateTicker_def visible_def start_all_def Let_def)

theorem per_tick_algorithm_witness:
  "fraction_digits (decimals (start_timer 0 counter_neg)) = Inr 2
   \<and> snd (callback (start_timer 0 counter_neg)) = Inr ''-100.00''
   \<and> frac_len ''-100.00'' = 2
   \<and> callback (start_timer 0 counter_neg) = spec_tick (start_timer 0 counter_neg)"
proof -
  let ?t = "start_timer 0 counter_neg"
  have f: "fraction_digits (decimals ?t) = Inr 2"
    by (simp add: counter_neg_def fraction_digits_def)
  have "is_double (data_target counter_neg)"
    using is_double_int [of "- 100"] by (simp add: counter_neg_def)
  moreover have "data_target counter_neg = Fin (- 100)" by (simp add: counter_neg_def)
  ultimately have cb: "callback ?t = (?t\<lparr>count := Fin (- 100), active := False\<rparr>,
      toFixed (Fin (- 100)) (data_decimals counter_neg))"
    using neg_first_callback [of counter_neg "- 100" 0] by simp
  then have s: "snd (callback ?t) = Inr ''-100.00''" and c: "count (fst (callback ?t)) = Fin (- 100)"
    by (simp_all add: counter_neg_def toFixed_m100_2)
  from per_tick_algorithm [of 0 counter_neg ?t 0 no_page] f s c
  show ?thesis by auto
qed

text \<open>
  C6 as stated (every tick writes the running value with \<open>decimals\<close> fractional digits)
  fails for a counter with \<open>decimals="101"\<close>: its tick raises \<open>RangeError\<close> and leaves
  the element's text as it was.
\<close>

theorem render_range_error:
  "fst (fire 0 (snd (DOMContentLoaded (Some [counter_250_101]) visible))) = [RangeError]
   \<and> counters (snd (fire 0 (snd (DOMContentLoaded (Some [counter_250_101]) visible))))
       = [counter_250_101]
   \<and> snd (callback (start_timer 0 counter_250_101)) = Inl RangeError"
proof -
  let ?t = "start_timer 0 counter_250_101"
  have s: "snd (callback ?t) = Inl RangeError"
    by (simp add: callback_render counter_250_101_def toFixed_error fraction_digits_101)
  then obtain t' where cb: "callback ?t = (t', Inl RangeError)" by (cases "callback ?t") simp
  then show ?thesis using s by (simp add: ready_visible fire_def)
qed

text \<open>
  C8.  For a counter with target 0 and 0 decimals the step is 0, the clamp condition holds
  on the first tick, and that tick renders the text \<open>0\<close> and clears the timer: it is the
  only tick that runs.
\<close>

theorem zero_target_first_tick:
  "step (start_timer i \<lparr>data_target = Fin 0, data_decimals = Fin 0, textContent = txt\<rparr>) = Fin 0
   \<and> js_ge (js_add (count (start_timer i \<lparr>data_target = Fin 0, data_decimals = Fin 0, textContent = txt\<rparr>))
                   (step (start_timer i \<lparr>data_target = Fin 0, data_decimals = Fin 0, textContent = txt\<rparr>)))
            (target (start_timer i \<lparr>data_target = Fin 0, data_decimals = Fin 0, textContent = txt\<rparr>))
   \<and> callback (start_timer i \<lparr>data_target = Fin 0, data_decimals = Fin 0, textContent = txt\<rparr>)
       = ((start_timer i \<lparr>data_target = Fin 0, data_decimals = Fin 0, textContent = txt\<rparr>)
            \<lparr>active := False\<rparr>, Inr ''0'')
   \<and> renders (Suc n) (start_timer i \<lparr>data_target = Fin 0, data_decimals = Fin 0, textContent = txt\<rparr>)
       = [Inr ''0'']"
  by (simp add: start_timer_def callback_def add_step_def clamp_def render_def Let_def
      round_double_def toFixed_0_0)

text \<open>
  C9.  For a counter with a non-negative target (so not \<open>NaN\<close>) the running value is at
  most the target after any number of ticks, and every tick renders a running value that
  is at most the target.
\<close>

theorem no_intermediate_overshoot:
  assumes "js_ge (data_target e) (Fin 0)"
  shows "js_ge (data_target e) (count (ticks n (start_timer i e)))
         \<and> (\<forall>k < length (renders n (start_timer i e)).
               renders n (start_timer i e) ! k
                 = toFixed (count (ticks (Suc k) (start_timer i e))) (data_decimals e)
               \<and> js_ge (data_target e) (count (ticks (Suc k) (start_timer i e))))"
proof -
  have "bounded (ticks m (start_timer i e))" for m
    using start_bounded [OF assms] by (rule ticks_bounded)
  then have a: "js_ge (data_target e) (count (ticks m (start_timer i e)))" for m
    by (simp add: bounded_def)
  have b: "\<forall>k < length (renders n (start_timer i e)).
             renders n (start_timer i e) ! k
               = toFixed (count (ticks (Suc k) (start_timer i e))) (data_decimals e)
             \<and> js_ge (data_target e) (count (ticks (Suc k) (start_timer i e)))"
  proof (intro allI impI conjI)
    fix k assume "k < length (renders n (start_timer i e))"
    from renders_nth [OF this]
    show "renders n (start_timer i e) ! k
            = toFixed (count (ticks (Suc k) (start_timer i e))) (data_decimals e)"
      by (simp del: ticks.simps)
    show "js_ge (data_target e) (count (ticks (Suc k) (start_timer i e)))" by (rule a)
  qed
  from a [of n] b show ?thesis by blast
qed

theorem no_intermediate_overshoot_witness:
  "js_ge (data_target counter_250) (Fin 0)
   \<and> js_ge (Fin 250) (count (ticks 37 (start_timer 0 counter_250)))"
proof -
  have h: "js_ge (data_target counter_250) (Fin 0)" by (simp add: counter_250_def)
  from no_intermediate_overshoot [OF h, of 37 0] h show ?thesis by (simp add: counter_250_def)
qed

text \<open>
  C10, as amended.  If the parsed target is \<open>NaN\<close>, the running value is \<open>NaN\<close> from
  the first tick on, the condition \<open>count >= target\<close> never holds, the timer is never
  cleared and the callback runs at every tick; each tick writes the text \<open>NaN\<close> when
  \<open>decimals\<close> is within 0..100, and raises \<open>RangeError\<close> without writing when it is not.
\<close>

theorem nan_target_never_settles:
  assumes "data_target e = NaN"
  shows "active (ticks n (start_timer i e))
         \<and> (0 < n \<longrightarrow> count (ticks n (start_timer i e)) = NaN)
         \<and> length (renders n (start_timer i e)) = n
         \<and> (\<forall>f. fraction_digits (data_decimals e) = Inr f \<longrightarrow>
               renders n (start_timer i e) = replicate n (Inr ''NaN''))
         \<and> (\<forall>err. fraction_digits (data_decimals e) = Inl err \<longrightarrow>
               renders n (start_timer i e) = replicate n (Inl err))"
proof -
  let ?t = "start_timer i e"
  from assms have "target ?t = NaN" "step ?t = NaN" "active ?t" by simp_all
  from nan_ticks [OF this, of n]
  have a: "active (ticks n ?t)" and c: "0 < n \<longrightarrow> count (ticks n ?t) = NaN"
    and r: "renders n ?t = replicate n (toFixed NaN (data_decimals e))" by simp_all
  have t: "fraction_digits (data_decimals e) = Inr f \<longrightarrow> toFixed NaN (data_decimals e) = Inr ''NaN''" for f
    by (simp add: toFixed_def)
  have x: "fraction_digits (data_decimals e) = Inl err \<longrightarrow> toFixed NaN (data_decimals e) = Inl err" for err
    by (simp add: toFixed_def)
  from a c r t x show ?thesis by simp
qed

theorem nan_target_never_settles_witness:
  "data_target counter_nan = NaN
   \<and> active (ticks 1000 (start_timer 0 counter_nan))
   \<and> count (ticks 1000 (start_timer 0 counter_nan)) = NaN
   \<and> renders 3 (start_timer 0 counter_nan) = [Inr ''NaN'', Inr ''NaN'', Inr ''NaN'']"
proof -
  have a: "data_target counter_nan = NaN" by (simp add: counter_nan_def)
  have f: "fraction_digits (data_decimals counter_nan) = Inr 0"
    by (simp add: counter_nan_def fraction_digits_def)
  from nan_target_never_settles [OF a, of 1000 0] nan_target_never_settles [OF a, of 3 0] a f
  show ?thesis by (simp add: numeral_3_eq_3)
qed

text \<open>
  C10 as stated (the text is rewritten to \<open>NaN\<close> on every tick) fails for a counter with
  \<open>decimals="101"\<close>: every tick raises \<open>RangeError\<close> and no text is ever written.
\<close>

theorem nan_target_range_error:
  "data_target counter_nan_101 = NaN
   \<and> renders 3 (start_timer 0 counter_nan_101) = [Inl RangeError, Inl RangeError, Inl RangeError]
   \<and> written (renders 3 (start_timer 0 counter_nan_101)) = []"
proof -
  let ?t = "start_timer 0 counter_nan_101"
  have "target ?t = NaN" "step ?t = NaN" "active ?t" by (simp_all add: counter_nan_101_def)
  from nan_ticks [OF this, of 3]
  have "renders 3 ?t = replicate 3 (toFixed NaN (Fin 101))" by (simp add: counter_nan_101_def)
  moreover have "toFixed NaN (Fin 101) = Inl RangeError"
    by (simp add: toFixed_error fraction_digits_101)
  ultimately show ?thesis by (simp add: counter_nan_101_def numeral_3_eq_3)
qed

section \<open>The visibility check\<close>

lemma animateTicker_started: "started p \<Longrightarrow> animateTicker g p = p"
  by (simp add: animateTicker_def)

lemma animateTicker_changes: "animateTicker g p \<noteq> p \<Longrightarrow> started (animateTicker g p)"
  by (auto simp: animateTicker_def Let_def split: if_splits)

lemma animateTicker_keeps_started: "started p \<Longrightarrow> started (animateTicker g p)"
  by (simp add: animateTicker_def)

lemma animateTicker_listeners [simp]:
  "scroll_listeners (animateTicker g p) = scroll_listeners p"
  by (simp add: animateTicker_def Let_def)

lemma animateTicker_counters [simp]: "counters (animateTicker g p) = counters p"
  by (simp add: animateTicker_def Let_def)

lemma fire_started [simp]: "started (snd (fire i p)) = started p"
  by (auto simp: fire_def split: prod.splits sum.splits)

lemma fire_listeners [simp]: "scroll_listeners (snd (fire i p)) = scroll_listeners p"
  by (auto simp: fire_def split: prod.splits sum.splits)

lemma fire_timers_length [simp]: "length (timers (snd (fire i p))) = length (timers p)"
  by (auto simp: fire_def split: prod.splits sum.splits)

lemma fire_counters_length [simp]: "length (counters (snd (fire i p))) = length (counters p)"
  by (auto simp: fire_def set_text_def split: prod.splits sum.splits)

lemma start_all_length [simp]: "length (start_all els) = length els"
  by (simp add: start_all_def)

lemma dispatch_keeps_started: "started p \<Longrightarrow> started (snd (dispatch ev p))"
  by (cases ev) (simp_all add: animateTicker_keeps_started)

lemma dispatch_listeners [simp]: "scroll_listeners (snd (dispatch ev p)) = scroll_listeners p"
  by (cases ev) simp_all

lemma dispatch_counters_length [simp]:
  "length (counters (snd (dispatch ev p))) = length (counters p)"
  by (cases ev) simp_all

lemma starts_started: "started p \<Longrightarrow> starts evs p = 0"
proof (induction evs arbitrary: p)
  case Nil
  show ?case by simp
next
  case (Cons ev evs)
  show ?case
  proof (cases ev)
    case (Scroll g)
    with Cons show ?thesis by (simp add: animateTicker_started)
  next
    case (Fire i)
    with Cons show ?thesis by simp
  qed
qed

lemma starts_le_1: "starts evs p \<le> 1"
proof (induction evs arbitrary: p)
  case Nil
  show ?case by simp
next
  case (Cons ev evs)
  show ?case
  proof (cases ev)
    case (Fire i)
    with Cons show ?thesis by simp
  next
    case (Scroll g)
    show ?thesis
    proof (cases "snd (dispatch (Scroll g) p) = p")
      case True
      with Cons Scroll show ?thesis by simp
    next
      case False
      then have "started (snd (dispatch (Scroll g) p))"
        by (auto simp: animateTicker_changes split: if_splits)
      then have "starts evs (snd (dispatch (Scroll g) p)) = 0"
        by (rule starts_started)
      with Scroll False show ?thesis by simp
    qed
  qed
qed

lemma animateTicker_inv: "timers_inv p \<Longrightarrow> timers_inv (animateTicker g p)"
  by (auto simp: timers_inv_def animateTicker_def Let_def split: if_splits)

lemma dispatch_inv: "timers_inv p \<Longrightarrow> timers_inv (snd (dispatch ev p))"
proof (cases ev)
  case (Scroll g)
  assume "timers_inv p"
  with Scroll show ?thesis by (simp add: animateTicker_inv)
next
  case (Fire i)
  assume "timers_inv p"
  with Fire show ?thesis by (simp add: timers_inv_def)
qed

lemma run_preserves:
  assumes step: "\<And>ev q. P q \<Longrightarrow> P (snd (dispatch ev q))"
    and init: "P p"
  shows "P (snd (run evs (errs, p)))"
  using init
proof (induction evs arbitrary: errs p)
  case Nil
  then show ?case by simp
next
  case (Cons ev evs)
  obtain es p' where d: "dispatch ev p = (es, p')" by (cases "dispatch ev p")
  from Cons.prems have "P (snd (dispatch ev p))" by (rule step)
  with d have "P p'" by simp
  then have "P (snd (run evs (errs @ es, p')))" by (rule Cons.IH)
  with d show ?case by simp
qed

lemma run_inv: "timers_inv p \<Longrightarrow> timers_inv (snd (run evs (errs, p)))"
  by (rule run_preserves [where P = timers_inv]) (rule dispatch_inv)

lemma run_counters_length: "length (counters (snd (run evs (errs, p)))) = length (counters p)"
  by (rule run_preserves [where P = "\<lambda>q. length (counters q) = length (counters p)"]) simp_all

lemma ready_inv: "timers_inv (snd (DOMContentLoaded ticker g))"
  by (cases ticker)
     (simp_all add: DOMContentLoaded_def no_page_def page_init_def timers_inv_def
        animateTicker_def Let_def)

lemma ready_counters: "counters (snd (DOMContentLoaded (Some els) g)) = els"
  by (simp add: DOMContentLoaded_def page_init_def Let_def)

text \<open>
  C1.  The flag \<open>started\<close> is false when the handler creates it.  The immediate check of
  the setup and the checks of any later sequence of events (scrolls, with timer callbacks
  in between) start the animation set at most once in total; at every moment the page has
  at most one timer per counter; and a check made once the flag is set returns the page as
  it was.
\<close>

theorem at_most_once_trigger:
  "\<not> started (page_init els)
   \<and> (if started (snd (DOMContentLoaded (Some els) g)) then 1 else 0)
       + starts evs (snd (DOMContentLoaded (Some els) g)) \<le> (1::nat)
   \<and> length (timers (snd (run evs (DOMContentLoaded (Some els) g)))) \<le> length els
   \<and> (started p \<longrightarrow> animateTicker g' p = p)"
proof -
  let ?p = "snd (DOMContentLoaded (Some els) g)"
  have a: "\<not> started (page_init els)" by (simp add: page_init_def)
  have b: "(if started ?p then 1 else 0) + starts evs ?p \<le> (1::nat)"
    using starts_started [of ?p evs] starts_le_1 [of evs ?p] by simp
  obtain es where r: "DOMContentLoaded (Some els) g = (es, ?p)"
    by (cases "DOMContentLoaded (Some els) g") simp
  have "timers_inv (snd (run evs (es, ?p)))"
    using ready_inv by (rule run_inv)
  moreover have "length (counters (snd (run evs (es, ?p)))) = length els"
    by (simp add: run_counters_length ready_counters)
  ultimately have c: "length (timers (snd (run evs (DOMContentLoaded (Some els) g)))) \<le> length els"
    by (simp add: r [symmetric] timers_inv_def split: if_splits)
  have d: "started p \<longrightarrow> animateTicker g' p = p" by (simp add: animateTicker_started)
  from a b c d show ?thesis by blast
qed

theorem at_most_once_trigger_witness:
  "started (snd (DOMContentLoaded (Some [counter_250]) visible))
   \<and> animateTicker below_fold (snd (DOMContentLoaded (Some [counter_250]) visible))
       = snd (DOMContentLoaded (Some [counter_250]) visible)
   \<and> length (timers (snd (run [Scroll visible, Fire 0, Scroll visible]
                              (DOMContentLoaded (Some [counter_250]) below_fold)))) \<le> 1"
proof -
  have h: "started (snd (DOMContentLoaded (Some [counter_250]) visible))"
    by (simp add: ready_visible)
  from at_most_once_trigger [of "[counter_250]" below_fold "[Scroll visible, Fire 0, Scroll visible]"
      "snd (DOMContentLoaded (Some [counter_250]) visible)" below_fold] h
  show ?thesis by simp
qed

text \<open>
  C5.  A check starts the animation set (sets the flag and creates one timer per counter)
  when the flag is still false and the top edge is strictly less than the viewport height;
  it changes the page in no other case, in particular not when the top edge equals or
  exceeds the viewport height.
\<close>

theorem trigger_condition:
  "(\<not> started p \<and> js_lt (rect_top g) (innerHeight g)
      \<longrightarrow> animateTicker g p = p\<lparr>started := True, timers := timers p @ start_all (counters p)\<rparr>)
   \<and> (animateTicker g p \<noteq> p \<longrightarrow> \<not> started p \<and> js_lt (rect_top g) (innerHeight g))
   \<and> (js_ge (rect_top g) (innerHeight g) \<longrightarrow> animateTicker g p = p)"
proof -
  have ge_not_lt: "js_ge a b \<Longrightarrow> \<not> js_lt a b" for a b
    by (cases a; cases b) auto
  show ?thesis
    using ge_not_lt [of "rect_top g" "innerHeight g"]
    by (auto simp: animateTicker_def Let_def)
qed

theorem trigger_condition_witness:
  "\<not> started (page_init [counter_250])
   \<and> js_lt (rect_top visible) (innerHeight visible)
   \<and> animateTicker visible (page_init [counter_250])
       = (page_init [counter_250])\<lparr>started := True, timers := [start_timer 0 counter_250]\<rparr>
   \<and> js_ge (rect_top below_fold) (innerHeight below_fold)
   \<and> animateTicker below_fold (page_init [counter_250]) = page_init [counter_250]"
proof -
  have a: "\<not> started (page_init [counter_250])" by (simp add: page_init_def)
  have b: "js_lt (rect_top visible) (innerHeight visible)" by (simp add: visible_def)
  have c: "js_ge (rect_top below_fold) (innerHeight below_fold)" by (simp add: below_fold_def)
  have d: "timers (page_init [counter_250]) @ start_all (counters (page_init [counter_250]))
           = [start_timer 0 counter_250]"
    by (simp add: page_init_def start_all_def)
  from trigger_condition [of "page_init [counter_250]" visible]
    trigger_condition [of "page_init [counter_250]" below_fold] a b c d
  show ?thesis by simp
qed

section \<open>Timers on the page\<close>

text \<open>
  What \<open>ticks\<close> and \<open>renders\<close> say of one counter holds of that counter on the page:
  after \<open>n\<close> firings of timer \<open>i\<close> its state is \<open>ticks n\<close> of the state before, and its
  element shows the last text of \<open>renders n\<close>.
\<close>

lemma fire_self:
  "i < length (timers p) \<Longrightarrow> timers (snd (fire i p)) ! i = ticks 1 (timers p ! i)"
  by (auto simp: fire_def split: prod.splits sum.splits)

lemma run_fires:
  "i < length (timers p) \<Longrightarrow>
   timers (snd (run (replicate n (Fire i)) (errs, p))) ! i = ticks n (timers p ! i)"
proof (induction n arbitrary: p errs)
  case 0
  show ?case by simp
next
  case (Suc n)
  obtain es p' where f: "fire i p = (es, p')" by (cases "fire i p")
  then have p': "p' = snd (fire i p)" by simp
  from Suc.prems have len: "i < length (timers p')" by (simp add: p')
  have t: "timers p' ! i = ticks 1 (timers p ! i)" using Suc.prems by (simp only: p' fire_self)
  have "timers (snd (run (replicate n (Fire i)) (errs @ es, p'))) ! i = ticks n (timers p' ! i)"
    using len by (rule Suc.IH)
  with f t show ?case by (cases "active (timers p ! i)") simp_all
qed

lemma shown_Cons:
  "shown old (r # rs) = shown (case r of Inr s \<Rightarrow> s | Inl e \<Rightarrow> old) rs"
  by (cases r) (simp_all add: shown_def)

lemma fire_text:
  assumes "i < length (timers p)" "el (timers p ! i) < length (counters p)"
  shows "textContent (counters (snd (fire i p)) ! el (timers p ! i))
         = shown (textContent (counters p ! el (timers p ! i))) (renders 1 (timers p ! i))"
proof (cases "active (timers p ! i)")
  case False
  then show ?thesis by (simp add: fire_def shown_def)
next
  case True
  let ?t = "timers p ! i"
  obtain t' r where cb: "callback ?t = (t', r)" by (cases "callback ?t")
  then have e: "el t' = el ?t" using callback_fields(1) [of ?t] by simp
  from cb have r: "renders 1 ?t = [r]" using True by (simp add: One_nat_def)
  show ?thesis
  proof (cases r)
    case (Inl err)
    with cb True assms r show ?thesis by (simp add: fire_def shown_def)
  next
    case (Inr s)
    with cb True assms r e show ?thesis by (simp add: fire_def shown_def set_text_def)
  qed
qed

lemma run_fires_text:
  assumes "i < length (timers p)" "el (timers p ! i) < length (counters p)"
  shows "textContent (counters (snd (run (replicate n (Fire i)) (errs, p))) ! el (timers p ! i))
         = shown (textContent (counters p ! el (timers p ! i))) (renders n (timers p ! i))"
  using assms
proof (induction n arbitrary: p errs)
  case 0
  show ?case by (simp add: shown_def)
next
  case (Suc n)
  let ?t = "timers p ! i"
  obtain es p' where f: "fire i p = (es, p')" by (cases "fire i p")
  then have p': "p' = snd (fire i p)" by simp
  from Suc.prems have len: "i < length (timers p')" by (simp add: p')
  have t: "timers p' ! i = ticks 1 ?t" using Suc.prems(1) by (simp only: p' fire_self)
  then have el: "el (timers p' ! i) = el ?t" by (simp del: ticks.simps)
  with Suc.prems have len2: "el (timers p' ! i) < length (counters p')" by (simp add: p')
  have tx: "textContent (counters p' ! el ?t) = shown (textContent (counters p ! el ?t)) (renders 1 ?t)"
    using fire_text [OF Suc.prems] by (simp only: p')
  have ih: "textContent (counters (snd (run (replicate n (Fire i)) (errs @ es, p'))) ! el (timers p' ! i))
        = shown (textContent (counters p' ! el (timers p' ! i))) (renders n (timers p' ! i))"
    using len len2 by (rule Suc.IH)
  show ?case
  proof (cases "active ?t")
    case True
    with t have t': "timers p' ! i = fst (callback ?t)" by simp
    from True have r: "renders (Suc n) ?t = snd (callback ?t) # renders n (fst (callback ?t))" by simp
    from True have r1: "renders 1 ?t = [snd (callback ?t)]" by (simp add: One_nat_def)
    from ih f t' el tx r1 show ?thesis
      unfolding r shown_Cons by (cases "snd (callback ?t)") (simp_all add: shown_def)
  next
    case False
    with t have t': "timers p' ! i = ?t" by simp
    from False f have "p' = p" by (simp add: fire_def)
    with ih f False show ?thesis by (simp add: shown_def)
  qed
qed

section \<open>A missing container\<close>

lemma run_no_page: "run evs (errs, no_page) = (errs, no_page)"
proof (induction evs arbitrary: errs)
  case Nil
  show ?case by simp
next
  case (Cons ev evs)
  have "dispatch ev no_page = ([], no_page)"
    by (cases ev) (simp_all add: no_page_def fire_def)
  then show ?case using Cons.IH by simp
qed

text \<open>
  C7.  Without a ticker element the handler returns at once: it raises nothing, registers
  no scroll listener and creates no timer, and no later event changes the page or raises
  an error.
\<close>

theorem missing_container_noop:
  "DOMContentLoaded None g = ([], no_page)
   \<and> scroll_listeners no_page = 0
   \<and> timers no_page = []
   \<and> run evs (DOMContentLoaded None g) = ([], no_page)"
  by (simp add: DOMContentLoaded_def run_no_page) (simp add: no_page_def)

end
